theory Spec2Isabelle
  imports Complex_Main
begin

section \<open>Python strings and built-ins used by childespython\<close>

text \<open>
  A Python \<open>str\<close> is modelled as a \<open>string\<close> (a list of \<open>char\<close>). A \<open>char\<close> stands for
  the code point of the same number, so the model covers the strings whose code points
  are below 256; the character classes below are Python's \<open>str.isspace\<close>,
  \<open>str.isdecimal\<close> and \<open>str.isalnum\<close> on that range. Exceptions are values of
  \<open>py_error\<close>; a function that can raise returns \<open>py_error + 'a\<close>.
\<close>

datatype py_error = IndexError | ValueError | KeyError | ZeroDivisionError | OverflowError

abbreviation TAB :: char where
  "TAB \<equiv> CHR 0x09"

definition isspace :: "char \<Rightarrow> bool" where
  "isspace c = (c \<in> set [CHR 0x09, CHR 0x0A, CHR 0x0B, CHR 0x0C, CHR 0x0D,
                          CHR 0x1C, CHR 0x1D, CHR 0x1E, CHR 0x1F, CHR 0x20,
                          CHR 0x85, CHR 0xA0])"

definition isdecimal :: "char \<Rightarrow> bool" where
  "isdecimal c = (let n = (of_char c :: nat) in 48 \<le> n \<and> n \<le> 57)"

definition isalnum :: "char \<Rightarrow> bool" where
  "isalnum c =
     (let n = (of_char c :: nat) in
        (48 \<le> n \<and> n \<le> 57) \<or> (65 \<le> n \<and> n \<le> 90) \<or> (97 \<le> n \<and> n \<le> 122) \<or>
        n = 170 \<or> n = 178 \<or> n = 179 \<or> n = 181 \<or> n = 185 \<or> n = 186 \<or>
        (188 \<le> n \<and> n \<le> 190) \<or> (192 \<le> n \<and> n \<le> 214) \<or>
        (216 \<le> n \<and> n \<le> 246) \<or> (248 \<le> n \<and> n \<le> 255))"

text \<open>\<open>s.startswith(p)\<close> and \<open>s.endswith(p)\<close>.\<close>

definition startswith :: "string \<Rightarrow> string \<Rightarrow> bool" where
  "startswith s p = (take (length p) s = p)"

definition endswith :: "string \<Rightarrow> string \<Rightarrow> bool" where
  "endswith s p = (length p \<le> length s \<and> drop (length s - length p) s = p)"

text \<open>\<open>p in s\<close> for strings: \<open>p\<close> occurs in \<open>s\<close> as a contiguous substring.\<close>

fun py_in :: "string \<Rightarrow> string \<Rightarrow> bool" where
  "py_in p [] = (p = [])"
| "py_in p (c # cs) = (startswith (c # cs) p \<or> py_in p cs)"

text \<open>\<open>s.strip()\<close> removes leading and trailing whitespace; \<open>s.strip(chars)\<close> removes
  leading and trailing characters that occur in \<open>chars\<close>.\<close>

definition strip_chars :: "string \<Rightarrow> string \<Rightarrow> string" where
  "strip_chars chars s =
     rev (dropWhile (\<lambda>c. c \<in> set chars) (rev (dropWhile (\<lambda>c. c \<in> set chars) s)))"

definition strip :: "string \<Rightarrow> string" where
  "strip s = rev (dropWhile isspace (rev (dropWhile isspace s)))"

text \<open>\<open>s.split(sep, 1)\<close> for a one-character separator: at most one split, at the first
  occurrence of the separator.\<close>

definition split_once :: "char \<Rightarrow> string \<Rightarrow> string list" where
  "split_once sep s =
     (case dropWhile (\<lambda>c. c \<noteq> sep) s of
        [] \<Rightarrow> [s]
      | _ # rest \<Rightarrow> [takeWhile (\<lambda>c. c \<noteq> sep) s, rest])"

text \<open>\<open>s.split(sep)\<close> for a one-character separator: every occurrence splits, empty
  fields are kept, and the result always has at least one field.\<close>

fun split_on :: "char \<Rightarrow> string \<Rightarrow> string list" where
  "split_on sep [] = [[]]"
| "split_on sep (c # cs) =
     (if c = sep then [] # split_on sep cs
      else (case split_on sep cs of
              [] \<Rightarrow> [[c]]
            | f # fs \<Rightarrow> (c # f) # fs))"

text \<open>\<open>s.split()\<close>: the maximal runs of non-whitespace characters, in order. The first
  argument is the run collected so far.\<close>

fun split_ws_from :: "string \<Rightarrow> string \<Rightarrow> string list" where
  "split_ws_from cur [] = (if cur = [] then [] else [cur])"
| "split_ws_from cur (c # cs) =
     (if isspace c then (if cur = [] then split_ws_from [] cs else cur # split_ws_from [] cs)
      else split_ws_from (cur @ [c]) cs)"

definition split_ws :: "string \<Rightarrow> string list" where
  "split_ws s = split_ws_from [] s"

text \<open>\<open>xs[i]\<close> for a non-negative index: \<open>IndexError\<close> out of range.\<close>

definition py_index :: "'a list \<Rightarrow> nat \<Rightarrow> py_error + 'a" where
  "py_index xs i = (if i < length xs then Inr (xs ! i) else Inl IndexError)"

section \<open>Transcript.get_cleaned_transcript\<close>

text \<open>
  The loop of \<open>get_cleaned_transcript\<close> over \<open>self.recording\<close>; the first argument is
  \<open>cleaned_up_transcript\<close> as built so far. A stripped line that starts with \<open>@\<close>, \<open>*\<close>
  or \<open>%\<close> is appended; any other line is appended to the last element after one space,
  or becomes the first element when the list is still empty.
\<close>

definition is_marker_line :: "string \<Rightarrow> bool" where
  "is_marker_line l = (startswith l ''@'' \<or> startswith l ''*'' \<or> startswith l ''%'')"

fun cleaned_loop :: "string list \<Rightarrow> string list \<Rightarrow> string list" where
  "cleaned_loop cleaned_up_transcript [] = cleaned_up_transcript"
| "cleaned_loop cleaned_up_transcript (raw # rest) =
     (let line = strip raw in
        if is_marker_line line then cleaned_loop (cleaned_up_transcript @ [line]) rest
        else if cleaned_up_transcript \<noteq> [] then
          cleaned_loop (butlast cleaned_up_transcript
                          @ [last cleaned_up_transcript @ '' '' @ line]) rest
        else cleaned_loop (cleaned_up_transcript @ [line]) rest)"

definition get_cleaned_transcript :: "string list \<Rightarrow> string list" where
  "get_cleaned_transcript recording = cleaned_loop [] recording"

section \<open>Transcript.get_participants_and_age and Transcript.get_age_in_days\<close>

text \<open>The dictionary \<open>{"participants": ..., "age": ...}\<close> that
  \<open>get_participants_and_age\<close> returns.\<close>

record participants_and_age =
  participants :: string
  age :: string

text \<open>
  Each \<open>[0]\<close> and \<open>[1]\<close> of the source is a checked index: the list comprehension may be
  empty and \<open>split('\t', 1)\<close> may return a single element.
\<close>

definition get_participants_and_age :: "string list \<Rightarrow> py_error + participants_and_age" where
  "get_participants_and_age recording =
     (let cleaned_up_transcript = get_cleaned_transcript recording;
          participants_line = filter (\<lambda>line. startswith line ''@Participants'')
                                cleaned_up_transcript
      in case py_index participants_line 0 of
           Inl e \<Rightarrow> Inl e
         | Inr pl \<Rightarrow>
             (case py_index (split_once TAB pl) 1 of
                Inl e \<Rightarrow> Inl e
              | Inr ps \<Rightarrow>
                  (let age_line = filter (\<lambda>line. startswith line ''@ID'' \<and> py_in '';'' line)
                                    cleaned_up_transcript
                   in case py_index age_line 0 of
                        Inl e \<Rightarrow> Inl e
                      | Inr al \<Rightarrow>
                          (case py_index (filter (\<lambda>bit. py_in '';'' bit)
                                            (split_on (CHR ''|'') al)) 0 of
                             Inl e \<Rightarrow> Inl e
                           | Inr a \<Rightarrow> Inr \<lparr>participants = ps, age = a\<rparr>))))"

text \<open>
  \<open>int(s)\<close> on a string, base ten: surrounding whitespace is dropped, one sign is
  allowed, then decimal digits, where single underscores may stand between digits.
  Anything else is a \<open>ValueError\<close>.

  The whitespace that \<open>int\<close> drops is not that of \<open>str.strip\<close>: of the ASCII characters
  it is tab, line feed, vertical tab, form feed, carriage return and space only, so the
  separators U+001C to U+001F stay in the string and make it invalid; a whitespace
  character outside ASCII (below 256: U+0085 and U+00A0) is dropped.

  A string with more than \<open>max_str_digits\<close> digits is a \<open>ValueError\<close> too, whatever its
  value (leading zeros count, the sign and the underscores do not). The number is
  \<open>sys.int_info.default_max_str_digits\<close>, the limit of the interpreter; the package
  never changes it.
\<close>

definition int_space :: "char \<Rightarrow> bool" where
  "int_space c = (c \<in> set [CHR 0x09, CHR 0x0A, CHR 0x0B, CHR 0x0C, CHR 0x0D, CHR 0x20,
                            CHR 0x85, CHR 0xA0])"

definition int_strip :: "string \<Rightarrow> string" where
  "int_strip s = rev (dropWhile int_space (rev (dropWhile int_space s)))"

definition max_str_digits :: nat where
  "max_str_digits = 4300"

definition digit_value :: "char \<Rightarrow> int" where
  "digit_value c = int (of_char c) - 48"

fun int_digits :: "int \<Rightarrow> string \<Rightarrow> int option" where
  "int_digits acc [] = Some acc"
| "int_digits acc [c] = (if isdecimal c then Some (10 * acc + digit_value c) else None)"
| "int_digits acc (c # d # ds) =
     (if isdecimal c then int_digits (10 * acc + digit_value c) (d # ds)
      else if c = CHR ''_'' \<and> isdecimal d then int_digits (10 * acc + digit_value d) ds
      else None)"

definition int_unsigned :: "string \<Rightarrow> py_error + int" where
  "int_unsigned s =
     (case s of
        [] \<Rightarrow> Inl ValueError
      | c # cs \<Rightarrow>
          if isdecimal c then
            (case int_digits (digit_value c) cs of
               None \<Rightarrow> Inl ValueError
             | Some n \<Rightarrow>
                 if max_str_digits < length (filter isdecimal s) then Inl ValueError
                 else Inr n)
          else Inl ValueError)"

definition py_int :: "string \<Rightarrow> py_error + int" where
  "py_int s =
     (case int_strip s of
        [] \<Rightarrow> Inl ValueError
      | c # cs \<Rightarrow>
          if c = CHR ''-'' then
            (case int_unsigned cs of Inl e \<Rightarrow> Inl e | Inr n \<Rightarrow> Inr (- n))
          else if c = CHR ''+'' then int_unsigned cs
          else int_unsigned (c # cs))"

text \<open>The number that a string of decimal digits denotes (the integer components
  \<open>Y\<close>, \<open>M\<close> and \<open>D\<close> of an age field), for stating what \<open>int\<close> returns on it.\<close>

definition decimal_value :: "string \<Rightarrow> int" where
  "decimal_value ds = foldl (\<lambda>acc c. 10 * acc + digit_value c) 0 ds"

text \<open>
  The arithmetic of \<open>get_age_in_days\<close> on the age field; the three \<open>int(...)\<close> calls are
  evaluated left to right, so the first failing one decides the exception.
\<close>

definition age_in_days :: "string \<Rightarrow> py_error + int" where
  "age_in_days age_in_childes_format =
     (case py_index (split_on (CHR '';'') age_in_childes_format) 0 of
        Inl e \<Rightarrow> Inl e
      | Inr ys \<Rightarrow>
     (case py_int ys of
        Inl e \<Rightarrow> Inl e
      | Inr y \<Rightarrow>
     (case py_index (split_on (CHR '';'') age_in_childes_format) 1 of
        Inl e \<Rightarrow> Inl e
      | Inr md \<Rightarrow>
     (case py_index (split_on (CHR ''.'') md) 0 of
        Inl e \<Rightarrow> Inl e
      | Inr ms \<Rightarrow>
     (case py_int ms of
        Inl e \<Rightarrow> Inl e
      | Inr m \<Rightarrow>
     (case py_index (split_on (CHR ''.'') md) 1 of
        Inl e \<Rightarrow> Inl e
      | Inr ds \<Rightarrow>
     (case py_int ds of
        Inl e \<Rightarrow> Inl e
      | Inr d \<Rightarrow> Inr (y * 12 * 30 + m * 30 + d))))))))"

definition get_age_in_days :: "string list \<Rightarrow> py_error + int" where
  "get_age_in_days recording =
     (case get_participants_and_age recording of
        Inl e \<Rightarrow> Inl e
      | Inr pa \<Rightarrow> age_in_days (age pa))"

section \<open>Transcript.get_structured_transcript\<close>

text \<open>
  An entry of the structured transcript: the value under \<open>"id"\<close> (\<open>None\<close> or an integer),
  and the two dictionaries under \<open>"speaker's tier"\<close> and \<open>"dependent tiers"\<close>. A
  dictionary is an association list in insertion order with distinct keys; \<open>dict_update\<close>
  is the assignment of one key (an existing key keeps its place).
\<close>

record entry =
  entry_id :: "int option"
  speakers_tier :: "(string \<times> string) list"
  dependent_tiers :: "(string \<times> string) list"

fun dict_update :: "'k \<Rightarrow> 'v \<Rightarrow> ('k \<times> 'v) list \<Rightarrow> ('k \<times> 'v) list" where
  "dict_update k v [] = [(k, v)]"
| "dict_update k v (p # ps) = (if fst p = k then (k, v) # ps else p # dict_update k v ps)"

definition dict_get :: "('k \<times> 'v) list \<Rightarrow> 'k \<Rightarrow> py_error + 'v" where
  "dict_get d k = (case map_of d k of None \<Rightarrow> Inl KeyError | Some v \<Rightarrow> Inr v)"

text \<open>
  The loop over \<open>body_of_transcript\<close>. The state is \<open>structured_transcript\<close>,
  \<open>current_entry\<close> and \<open>id_counter\<close>; \<open>line_parts[1]\<close> raises \<open>IndexError\<close> on a line
  without a tab. An entry appended to \<open>structured_transcript\<close> is never touched again,
  because \<open>current_entry\<close> is rebound to a fresh dictionary right after the append.
\<close>

fun structured_loop ::
  "string list \<Rightarrow> entry list \<Rightarrow> entry \<Rightarrow> int \<Rightarrow> py_error + (entry list \<times> entry)" where
  "structured_loop [] structured_transcript current_entry id_counter =
     Inr (structured_transcript, current_entry)"
| "structured_loop (line # rest) structured_transcript current_entry id_counter =
     (let line_parts = split_once TAB line in
        if py_in ''*'' (line_parts ! 0) then
          (let (st, cur, idc) =
                 (if speakers_tier current_entry \<noteq> [] then
                    (structured_transcript @ [current_entry],
                     \<lparr>entry_id = Some (id_counter + 1), speakers_tier = [],
                      dependent_tiers = []\<rparr>,
                     id_counter + 1)
                  else (structured_transcript, current_entry, id_counter))
           in case py_index line_parts 1 of
                Inl e \<Rightarrow> Inl e
              | Inr text \<Rightarrow>
                  structured_loop rest st
                    (cur\<lparr>speakers_tier := [(strip_chars '':'' (line_parts ! 0), text)]\<rparr>) idc)
        else if py_in ''%'' (line_parts ! 0) then
          (case py_index line_parts 1 of
             Inl e \<Rightarrow> Inl e
           | Inr text \<Rightarrow>
               structured_loop rest structured_transcript
                 (current_entry\<lparr>dependent_tiers :=
                    dict_update (strip_chars '':'' (line_parts ! 0)) text
                      (dependent_tiers current_entry)\<rparr>) id_counter)
        else structured_loop rest structured_transcript current_entry id_counter)"

text \<open>The list \<open>body_of_transcript\<close>: the cleaned lines that start with \<open>*\<close> or \<open>%\<close>.\<close>

definition body_of_transcript :: "string list \<Rightarrow> string list" where
  "body_of_transcript cleaned_up_transcript =
     filter (\<lambda>bit. startswith bit ''*'' \<or> startswith bit ''%'') cleaned_up_transcript"

text \<open>The part of \<open>get_structured_transcript\<close> after the call of
  \<open>get_cleaned_transcript\<close>, as a function of the cleaned (merged) lines.\<close>

definition structure_lines :: "string list \<Rightarrow> py_error + entry list" where
  "structure_lines cleaned_up_transcript =
     (case structured_loop (body_of_transcript cleaned_up_transcript) []
                \<lparr>entry_id = None, speakers_tier = [], dependent_tiers = []\<rparr> 1 of
           Inl e \<Rightarrow> Inl e
         | Inr (structured_transcript, current_entry) \<Rightarrow>
             if speakers_tier current_entry \<noteq> [] \<or> dependent_tiers current_entry \<noteq> []
             then Inr (structured_transcript @ [current_entry])
             else Inr structured_transcript)"

definition get_structured_transcript :: "string list \<Rightarrow> py_error + entry list" where
  "get_structured_transcript recording = structure_lines (get_cleaned_transcript recording)"

section \<open>util.tokenize\<close>

text \<open>\<open>cleaned[:-n]\<close> as the source writes it, with \<open>n = len(ign)\<close>: for \<open>n = 0\<close> the slice
  is \<open>cleaned[:0]\<close>, the empty string.\<close>

definition drop_suffix_len :: "nat \<Rightarrow> string \<Rightarrow> string" where
  "drop_suffix_len n cleaned = (if n = 0 then [] else take (length cleaned - n) cleaned)"

text \<open>One run of the \<open>for ign in list_of_strings_to_be_ignored\<close> loop: the prefix test,
  then the suffix test on the possibly shortened token, for each entry in order.\<close>

fun strip_pass :: "string list \<Rightarrow> string \<Rightarrow> bool \<Rightarrow> string \<times> bool" where
  "strip_pass [] cleaned stripping = (cleaned, stripping)"
| "strip_pass (ign # igns) cleaned stripping =
     (let (c1, s1) = (if startswith cleaned ign then (drop (length ign) cleaned, True)
                      else (cleaned, stripping));
          (c2, s2) = (if endswith c1 ign then (drop_suffix_len (length ign) c1, True)
                      else (c1, s1))
      in strip_pass igns c2 s2)"

text \<open>The loop \<open>while stripping and cleaned\<close>. Nothing is assumed about its termination:
  the result is \<open>None\<close> when the loop does not return.\<close>

partial_function (option) strip_while :: "string list \<Rightarrow> string \<Rightarrow> bool \<Rightarrow> string option" where
  "strip_while igns cleaned stripping =
     (if stripping \<and> cleaned \<noteq> [] then
        strip_while igns (fst (strip_pass igns cleaned False)) (snd (strip_pass igns cleaned False))
      else Some cleaned)"

declare strip_while.simps [code]

text \<open>The outer loop over \<open>text.split()\<close>, with the tokens the generator yields collected
  in order; \<open>None\<close> when the stripping of some raw token does not return.\<close>

fun tokenize_raws :: "string list \<Rightarrow> string list \<Rightarrow> string list option" where
  "tokenize_raws igns [] = Some []"
| "tokenize_raws igns (raw # raws) =
     (case strip_while igns raw True of
        None \<Rightarrow> None
      | Some cleaned \<Rightarrow>
          (case tokenize_raws igns raws of
             None \<Rightarrow> None
           | Some tokens \<Rightarrow>
               Some (if cleaned \<noteq> [] \<and> list_ex isalnum cleaned then cleaned # tokens
                     else tokens)))"

definition tokenize :: "string \<Rightarrow> string list \<Rightarrow> string list option" where
  "tokenize text list_of_strings_to_be_ignored =
     tokenize_raws list_of_strings_to_be_ignored (split_ws text)"

definition default_ignore :: "string list" where
  "default_ignore = ['','', ''.'', ''?'', ''!'', ''(.)'', ''[?]'']"

section \<open>Transcript.get_frequencies\<close>

definition match_types :: "string list" where
  "match_types = [''startswith'', ''contains'', ''endswith'', ''equals'']"

text \<open>The truth value of the \<open>pattern\<close> argument: \<open>None\<close> and the empty string are false.\<close>

definition truthy :: "string option \<Rightarrow> bool" where
  "truthy pattern = (case pattern of None \<Rightarrow> False | Some p \<Rightarrow> p \<noteq> [])"

text \<open>Whether the \<open>if pattern:\<close> block reaches a \<open>continue\<close> for a token.\<close>

definition token_skipped :: "string option \<Rightarrow> string \<Rightarrow> string \<Rightarrow> bool" where
  "token_skipped pattern match_type token =
     (case pattern of
        None \<Rightarrow> False
      | Some p \<Rightarrow>
          p \<noteq> [] \<and>
          (if match_type = ''startswith'' \<and> \<not> startswith token p then True
           else if match_type = ''contains'' \<and> \<not> py_in p token then True
           else if match_type = ''endswith'' \<and> \<not> endswith token p then True
           else if match_type = ''equals'' \<and> token \<noteq> p then True
           else False))"

fun count_tokens ::
  "string option \<Rightarrow> string \<Rightarrow> string list \<Rightarrow> (string \<times> int) list \<Rightarrow> (string \<times> int) list" where
  "count_tokens pattern match_type [] word_counts = word_counts"
| "count_tokens pattern match_type (token # tokens) word_counts =
     (if token_skipped pattern match_type token
      then count_tokens pattern match_type tokens word_counts
      else count_tokens pattern match_type tokens
             (case map_of word_counts token of
                Some n \<Rightarrow> dict_update token (n + 1) word_counts
              | None \<Rightarrow> dict_update token 1 word_counts))"

text \<open>The loop over \<open>filtered_segments\<close>; \<open>tokenize\<close> is called with its default ignore
  list.\<close>

fun frequencies_loop ::
  "entry list \<Rightarrow> string \<Rightarrow> string \<Rightarrow> string option \<Rightarrow> string \<Rightarrow> (string \<times> int) list
     \<Rightarrow> (py_error + (string \<times> int) list) option" where
  "frequencies_loop [] speaker tier pattern match_type word_counts = Some (Inr word_counts)"
| "frequencies_loop (el # els) speaker tier pattern match_type word_counts =
     (case (if tier = ''utterance'' then dict_get (speakers_tier el) speaker
            else if map_of (dependent_tiers el) tier \<noteq> None
                 then dict_get (dependent_tiers el) tier
            else Inr []) of
        Inl e \<Rightarrow> Some (Inl e)
      | Inr text \<Rightarrow>
          (case tokenize text default_ignore of
             None \<Rightarrow> None
           | Some tokens \<Rightarrow>
               frequencies_loop els speaker tier pattern match_type
                 (count_tokens pattern match_type tokens word_counts)))"

text \<open>
  \<open>get_frequencies\<close>, all arguments explicit. The structured transcript is computed
  first, then the match mode is checked, then the tokens are counted; the final
  \<open>sorted(..., reverse=True)\<close> is a stable sort by descending count. \<open>None\<close> stands for a
  call that does not return.
\<close>

definition get_frequencies ::
  "string list \<Rightarrow> string \<Rightarrow> string \<Rightarrow> string option \<Rightarrow> string
     \<Rightarrow> (py_error + (string \<times> int) list) option" where
  "get_frequencies recording speaker tier pattern match_type =
     (case get_structured_transcript recording of
        Inl e \<Rightarrow> Some (Inl e)
      | Inr structured_transcript \<Rightarrow>
          if truthy pattern \<and> match_type \<notin> set match_types then Some (Inl ValueError)
          else
            (let filtered_segments =
                   filter (\<lambda>el. map_of (speakers_tier el) speaker \<noteq> None)
                     structured_transcript
             in case frequencies_loop filtered_segments speaker tier pattern match_type [] of
                  None \<Rightarrow> None
                | Some (Inl e) \<Rightarrow> Some (Inl e)
                | Some (Inr word_counts) \<Rightarrow>
                    Some (Inr (sort_key (\<lambda>item. - snd item) word_counts))))"

section \<open>Transcript.compute_ttr_from_frequencies\<close>

text \<open>
  A finite Python \<open>float\<close> is a binary64 number, hence a rational; it is modelled by
  its exact value. \<open>nearest_float\<close> rounds a rational to the nearest binary64 value,
  ties to even: 53 significant bits, the exponent of the last place at least \<open>-1074\<close>.
\<close>

definition round_half_even :: "rat \<Rightarrow> int" where
  "round_half_even x =
     (let f = \<lfloor>x\<rfloor>; d = x - of_int f in
        if d < 1 / 2 then f
        else if 1 / 2 < d then f + 1
        else if even f then f else f + 1)"

definition pow2 :: "int \<Rightarrow> rat" where
  "pow2 k = (if 0 \<le> k then 2 ^ nat k else 1 / 2 ^ nat (- k))"

fun bit_length :: "nat \<Rightarrow> nat" where
  "bit_length n = (if n = 0 then 0 else Suc (bit_length (n div 2)))"

declare bit_length.simps [simp del]

text \<open>For \<open>x > 0\<close>, the integer \<open>e\<close> with \<open>2 ^ e \<le> x < 2 ^ (e + 1)\<close>.\<close>

definition floor_log2 :: "rat \<Rightarrow> int" where
  "floor_log2 x =
     (let k = int (bit_length (nat (fst (quotient_of x))))
              - int (bit_length (nat (snd (quotient_of x))))
      in if pow2 k \<le> x then k else k - 1)"

definition nearest_float :: "rat \<Rightarrow> rat" where
  "nearest_float x =
     (if x = 0 then 0
      else (let m = \<bar>x\<bar>;
                ulp = pow2 (max (floor_log2 m) (- 1022) - 52);
                r = of_int (round_half_even (m / ulp)) * ulp
            in if x < 0 then - r else r))"

text \<open>\<open>a / b\<close> on integers: the correctly rounded quotient.\<close>

definition py_truediv :: "int \<Rightarrow> int \<Rightarrow> py_error + rat" where
  "py_truediv a b =
     (if b = 0 then Inl ZeroDivisionError
      else (let r = nearest_float (of_int a / of_int b) in
              if pow2 1024 \<le> \<bar>r\<bar> then Inl OverflowError else Inr r))"

text \<open>\<open>round(x, 2)\<close> on a float: the exact value of \<open>x\<close> is rounded to two decimals, ties
  to even, and the decimal result is converted back to the nearest float.\<close>

definition py_round2 :: "rat \<Rightarrow> rat" where
  "py_round2 x = nearest_float (of_int (round_half_even (x * 100)) / 100)"

text \<open>The frequency dictionary is an association list of items with distinct keys, so
  \<open>len\<close> is the length of the list and \<open>sum(d.values())\<close> the sum of the second
  components.\<close>

definition compute_ttr_from_frequencies :: "(string \<times> int) list \<Rightarrow> py_error + rat" where
  "compute_ttr_from_frequencies frequency_dictionary =
     (let num_types = int (length frequency_dictionary);
          num_tokens = sum_list (map snd frequency_dictionary)
      in if 0 < num_tokens then
           (case py_truediv num_types num_tokens of
              Inl e \<Rightarrow> Inl e
            | Inr q \<Rightarrow> Inr (py_round2 q))
         else Inr 0)"

section \<open>Properties of get_cleaned_transcript\<close>

lemma cleaned_loop_append:
  "cleaned_loop acc (xs @ ys) = cleaned_loop (cleaned_loop acc xs) ys"
  by (induction xs arbitrary: acc) (simp_all add: Let_def)

text \<open>Once the list is non-empty, the loop only ever touches its last element.\<close>

lemma cleaned_loop_prefix:
  "acc \<noteq> [] \<Longrightarrow> cleaned_loop (pre @ acc) xs = pre @ cleaned_loop acc xs"
proof (induction xs arbitrary: acc)
  case Nil
  then show ?case by simp
next
  case (Cons raw rest)
  have a: "cleaned_loop (pre @ (acc @ [strip raw])) rest
         = pre @ cleaned_loop (acc @ [strip raw]) rest"
    by (rule Cons.IH) simp
  have b: "cleaned_loop (pre @ (butlast acc @ [last acc @ '' '' @ strip raw])) rest
         = pre @ cleaned_loop (butlast acc @ [last acc @ '' '' @ strip raw]) rest"
    by (rule Cons.IH) simp
  from Cons.prems a b show ?case
    by (simp add: Let_def butlast_append)
qed

lemma cleaned_loop_marker_first:
  assumes "is_marker_line (strip m)"
  shows "cleaned_loop acc (m # rest) = acc @ cleaned_loop [] (m # rest)"
  using assms cleaned_loop_prefix [of "[strip m]" acc rest] by (simp add: Let_def)

lemma cleaned_loop_boundary:
  assumes "post = [] \<or> is_marker_line (strip (hd post))"
  shows "cleaned_loop acc post = acc @ cleaned_loop [] post"
proof (cases post)
  case Nil
  then show ?thesis by simp
next
  case (Cons p ps)
  with assms have "is_marker_line (strip p)" by simp
  then show ?thesis unfolding Cons by (rule cleaned_loop_marker_first)
qed

lemma cleaned_loop_continuations:
  assumes "\<forall>c \<in> set conts. \<not> is_marker_line (strip c)"
  shows "cleaned_loop (pre @ [r]) (conts @ post)
       = cleaned_loop (pre @ [r @ concat (map (\<lambda>c. '' '' @ strip c) conts)]) post"
  using assms
proof (induction conts arbitrary: r)
  case Nil
  then show ?case by simp
next
  case (Cons c cs)
  have "cleaned_loop (pre @ [r]) ((c # cs) @ post)
      = cleaned_loop (pre @ [r @ '' '' @ strip c]) (cs @ post)"
    using Cons.prems by (simp add: Let_def)
  also have "\<dots> = cleaned_loop
       (pre @ [(r @ '' '' @ strip c) @ concat (map (\<lambda>c. '' '' @ strip c) cs)]) post"
    using Cons.prems by (intro Cons.IH) simp
  finally show ?case by simp
qed

text \<open>
  C9, as the code has it. A marker line \<open>m\<close> followed by the continuation lines \<open>conts\<close>
  and then by the end of the input or by another marker line gives exactly one record:
  the stripped marker line followed, for every continuation line in order, by one space
  and the stripped continuation line. The records before and after are those of the
  lines before and after. For a single continuation line \<open>c\<close> the record is the stripped
  \<open>m\<close>, one space, the stripped \<open>c\<close>. Empty input gives the empty list.
\<close>

theorem continuation_merging:
  "get_cleaned_transcript [] = [] \<and>
   (is_marker_line (strip m) \<and> (\<forall>c \<in> set conts. \<not> is_marker_line (strip c)) \<and>
    (post = [] \<or> is_marker_line (strip (hd post)))
    \<longrightarrow> get_cleaned_transcript (pre @ m # conts @ post)
        = get_cleaned_transcript pre
          @ [strip m @ concat (map (\<lambda>c. '' '' @ strip c) conts)]
          @ get_cleaned_transcript post)"
proof (intro conjI impI)
  show "get_cleaned_transcript [] = []"
    by (simp add: get_cleaned_transcript_def)
next
  assume h: "is_marker_line (strip m) \<and> (\<forall>c \<in> set conts. \<not> is_marker_line (strip c)) \<and>
    (post = [] \<or> is_marker_line (strip (hd post)))"
  let ?P = "cleaned_loop [] pre"
  let ?r = "strip m @ concat (map (\<lambda>c. '' '' @ strip c) conts)"
  have "cleaned_loop [] (pre @ m # conts @ post) = cleaned_loop ?P (m # conts @ post)"
    by (simp add: cleaned_loop_append)
  also have "\<dots> = ?P @ cleaned_loop [] (m # conts @ post)"
    using h by (intro cleaned_loop_marker_first) simp
  also have "cleaned_loop [] (m # conts @ post) = cleaned_loop ([] @ [strip m]) (conts @ post)"
    using h by (simp add: Let_def)
  also have "\<dots> = cleaned_loop ([] @ [?r]) post"
    using h by (intro cleaned_loop_continuations) simp
  also have "\<dots> = [?r] @ cleaned_loop [] post"
    using h cleaned_loop_boundary [of post "[?r]"] by simp
  finally show "get_cleaned_transcript (pre @ m # conts @ post)
       = get_cleaned_transcript pre @ [?r] @ get_cleaned_transcript post"
    by (simp add: get_cleaned_transcript_def)
qed

text \<open>The theorem at a speaker line with one continuation line, followed by an
  annotation line.\<close>

theorem continuation_merging_witness:
  "is_marker_line (strip (''*CHI:'' @ [TAB] @ ''hello '')) \<and>
   \<not> is_marker_line (strip (TAB # ''world .'')) \<and>
   is_marker_line (strip (''%mor:'' @ [TAB] @ ''n|hello'')) \<and>
   get_cleaned_transcript
     [''*CHI:'' @ [TAB] @ ''hello '', TAB # ''world .'', ''%mor:'' @ [TAB] @ ''n|hello'']
   = [''*CHI:'' @ [TAB] @ ''hello world .'', ''%mor:'' @ [TAB] @ ''n|hello'']"
  using continuation_merging [of "''*CHI:'' @ [TAB] @ ''hello ''" "[TAB # ''world .'']"
      "[''%mor:'' @ [TAB] @ ''n|hello'']" "[]"]
  by (simp add: get_cleaned_transcript_def strip_def isspace_def is_marker_line_def
      startswith_def Let_def)

text \<open>
  The claim as stated fails when a second continuation line follows: the only record is
  the marker line with both continuation lines, so no record is the marker line, one
  space and the first continuation line.
\<close>

theorem continuation_merging_counterexample:
  "is_marker_line (strip (''*CHI:'' @ [TAB] @ ''a'')) \<and>
   \<not> is_marker_line (strip ''b'') \<and>
   get_cleaned_transcript [''*CHI:'' @ [TAB] @ ''a'', ''b'', ''c'']
     = [''*CHI:'' @ [TAB] @ ''a b c''] \<and>
   strip (''*CHI:'' @ [TAB] @ ''a'') @ '' '' @ strip ''b''
     \<notin> set (get_cleaned_transcript [''*CHI:'' @ [TAB] @ ''a'', ''b'', ''c''])"
  by (simp add: get_cleaned_transcript_def strip_def isspace_def is_marker_line_def
      startswith_def Let_def)

section \<open>Properties of get_structured_transcript\<close>

text \<open>
  C1. On the two lines of the example, which \<open>get_cleaned_transcript\<close> leaves as they are,
  \<open>get_structured_transcript\<close> returns one entry with the speaker's tier and the dependent
  tier of the example, but its \<open>"id"\<close> is \<open>None\<close>, not 1: the first entry is the initial
  \<open>current_entry\<close>, whose \<open>"id"\<close> is never assigned.
\<close>

theorem example_first_entry_id:
  "get_cleaned_transcript
     [''*CHI:'' @ [TAB] @ ''hello world .'', ''%mor:'' @ [TAB] @ ''n|hello n|world'']
   = [''*CHI:'' @ [TAB] @ ''hello world .'', ''%mor:'' @ [TAB] @ ''n|hello n|world''] \<and>
   get_structured_transcript
     [''*CHI:'' @ [TAB] @ ''hello world .'', ''%mor:'' @ [TAB] @ ''n|hello n|world'']
   = Inr [\<lparr>entry_id = None, speakers_tier = [(''*CHI'', ''hello world .'')],
           dependent_tiers = [(''%mor'', ''n|hello n|world'')]\<rparr>]"
  by code_simp

lemma dict_update_nonempty: "dict_update k v d \<noteq> []"
  by (cases d) simp_all

lemma dict_update_keys: "fst ` set (dict_update k v d) = insert k (fst ` set d)"
  by (induction d) auto

lemma py_in_star_startswith: "startswith l ''*'' \<Longrightarrow> py_in ''*'' (split_once TAB l ! 0)"
  by (cases l) (auto simp: startswith_def split_once_def split: list.splits)

lemma py_in_percent_startswith: "startswith l ''%'' \<Longrightarrow> py_in ''%'' (split_once TAB l ! 0)"
  by (cases l) (auto simp: startswith_def split_once_def split: list.splits)

lemma structured_loop_appended:
  "structured_loop ls st cur idc = Inr (st', cur') \<Longrightarrow>
   \<forall>e \<in> set st. speakers_tier e \<noteq> [] \<Longrightarrow> \<forall>e \<in> set st'. speakers_tier e \<noteq> []"
proof (induction ls arbitrary: st cur idc)
  case Nil
  then show ?case by simp
next
  case (Cons l ls)
  from Cons.prems show ?case
    by (auto simp: Let_def split: if_splits sum.splits dest!: Cons.IH)
qed

lemma structured_loop_speaker_seen:
  "structured_loop ls st cur idc = Inr (st', cur') \<Longrightarrow>
   speakers_tier cur \<noteq> [] \<or> (\<exists>l \<in> set ls. py_in ''*'' (split_once TAB l ! 0)) \<Longrightarrow>
   speakers_tier cur' \<noteq> []"
proof (induction ls arbitrary: st cur idc)
  case Nil
  then show ?case by simp
next
  case (Cons l ls)
  from Cons.prems show ?case
    by (auto simp: Let_def split: if_splits sum.splits dest!: Cons.IH)
qed

lemma structured_loop_no_speaker:
  "structured_loop ls st cur idc = Inr (st', cur') \<Longrightarrow>
   \<forall>l \<in> set ls. \<not> py_in ''*'' (split_once TAB l ! 0) \<Longrightarrow>
   st' = st \<and> speakers_tier cur' = speakers_tier cur \<and> entry_id cur' = entry_id cur \<and>
   (dependent_tiers cur \<noteq> [] \<or> (\<exists>l \<in> set ls. py_in ''%'' (split_once TAB l ! 0))
      \<longrightarrow> dependent_tiers cur' \<noteq> [])"
proof (induction ls arbitrary: st cur idc)
  case Nil
  then show ?case by simp
next
  case (Cons l ls)
  from Cons.prems show ?case
    by (auto simp: Let_def dict_update_nonempty split: if_splits sum.splits dest!: Cons.IH)
qed


lemma structured_loop_count:
  "structured_loop ls st cur idc = Inr (st', cur') \<Longrightarrow>
   length st' + (if speakers_tier cur' \<noteq> [] then 1 else 0)
   = length st + (if speakers_tier cur \<noteq> [] then 1 else 0)
     + length (filter (\<lambda>l. py_in ''*'' (split_once TAB l ! 0)) ls)"
proof (induction ls arbitrary: st cur idc)
  case Nil
  then show ?case by simp
next
  case (Cons l ls)
  from Cons.prems show ?case
    by (auto simp: Let_def split: if_splits sum.splits dest!: Cons.IH)
qed

lemma structured_loop_annotations:
  "structured_loop ls st cur idc = Inr (st', cur') \<Longrightarrow>
   \<forall>l \<in> set ls. \<not> py_in ''*'' (split_once TAB l ! 0) \<and> py_in ''%'' (split_once TAB l ! 0) \<Longrightarrow>
   st' = st \<and>
   cur' = cur\<lparr>dependent_tiers :=
            foldl (\<lambda>d l. dict_update (strip_chars '':'' (split_once TAB l ! 0))
                           (split_once TAB l ! 1) d)
              (dependent_tiers cur) ls\<rparr>"
proof (induction ls arbitrary: cur)
  case Nil
  then show ?case by simp
next
  case (Cons l ls)
  let ?cur = "cur\<lparr>dependent_tiers :=
                dict_update (strip_chars '':'' (split_once TAB l ! 0)) (split_once TAB l ! 1)
                  (dependent_tiers cur)\<rparr>"
  from Cons.prems have "structured_loop ls st ?cur idc = Inr (st', cur')"
    by (auto simp: Let_def py_index_def split: if_splits sum.splits)
  moreover from Cons.prems(2) have
    "\<forall>l \<in> set ls. \<not> py_in ''*'' (split_once TAB l ! 0) \<and> py_in ''%'' (split_once TAB l ! 0)"
    by simp
  ultimately have "st' = st \<and>
    cur' = ?cur\<lparr>dependent_tiers :=
             foldl (\<lambda>d l. dict_update (strip_chars '':'' (split_once TAB l ! 0))
                            (split_once TAB l ! 1) d)
               (dependent_tiers ?cur) ls\<rparr>"
    by (rule Cons.IH)
  then show ?case by simp
qed

text \<open>
  C2, as the code has it. The final test appends \<open>current_entry\<close> when its speaker's tier
  or its dependent tiers are non-empty. So, whenever \<open>get_structured_transcript\<close> returns:

  \<^item> if some body line has \<open>*\<close> in its marker part (a speaker line), the result has one
    entry for each such line, and every entry has a non-empty speaker's tier;

  \<^item> if the body is empty, the result is empty;

  \<^item> if the body has lines and none is a speaker line, the result is the single entry
    that \<open>current_entry\<close> was at the start, with an empty speaker's tier and the
    dependent tiers that the assignments of the annotation lines give, taken in order
    from the empty dictionary (a later line with the same marker replaces the text of
    an earlier one); these dependent tiers are not empty.
\<close>

theorem speakers_tier_nonempty:
  "get_structured_transcript recording = Inr entries \<longrightarrow>
     (if \<exists>l \<in> set (body_of_transcript (get_cleaned_transcript recording)).
           py_in ''*'' (split_once TAB l ! 0)
      then length entries
             = length (filter (\<lambda>l. py_in ''*'' (split_once TAB l ! 0))
                         (body_of_transcript (get_cleaned_transcript recording))) \<and>
           (\<forall>e \<in> set entries. speakers_tier e \<noteq> [])
      else if body_of_transcript (get_cleaned_transcript recording) = [] then entries = []
      else entries =
             [\<lparr>entry_id = None, speakers_tier = [],
               dependent_tiers =
                 foldl (\<lambda>d l. dict_update (strip_chars '':'' (split_once TAB l ! 0))
                                (split_once TAB l ! 1) d)
                   [] (body_of_transcript (get_cleaned_transcript recording))\<rparr>] \<and>
           foldl (\<lambda>d l. dict_update (strip_chars '':'' (split_once TAB l ! 0))
                          (split_once TAB l ! 1) d)
             [] (body_of_transcript (get_cleaned_transcript recording)) \<noteq> [])"
proof
  let ?body = "body_of_transcript (get_cleaned_transcript recording)"
  let ?init = "\<lparr>entry_id = None, speakers_tier = [], dependent_tiers = []\<rparr>"
  let ?tiers = "foldl (\<lambda>d l. dict_update (strip_chars '':'' (split_once TAB l ! 0))
                          (split_once TAB l ! 1) d) [] ?body"
  assume r: "get_structured_transcript recording = Inr entries"
  then obtain st cur where
    loop: "structured_loop ?body [] ?init 1 = Inr (st, cur)" and
    out: "entries = (if speakers_tier cur \<noteq> [] \<or> dependent_tiers cur \<noteq> []
                     then st @ [cur] else st)"
    by (auto simp: get_structured_transcript_def structure_lines_def
        split: sum.splits prod.splits if_splits)
  show "if \<exists>l \<in> set ?body. py_in ''*'' (split_once TAB l ! 0)
      then length entries
             = length (filter (\<lambda>l. py_in ''*'' (split_once TAB l ! 0)) ?body) \<and>
           (\<forall>e \<in> set entries. speakers_tier e \<noteq> [])
      else if ?body = [] then entries = []
      else entries = [\<lparr>entry_id = None, speakers_tier = [], dependent_tiers = ?tiers\<rparr>] \<and>
           ?tiers \<noteq> []"
  proof (cases "\<exists>l \<in> set ?body. py_in ''*'' (split_once TAB l ! 0)")
    case True
    have "\<forall>e \<in> set st. speakers_tier e \<noteq> []"
      using structured_loop_appended [OF loop] by simp
    moreover have sp: "speakers_tier cur \<noteq> []"
      using structured_loop_speaker_seen [OF loop] True by simp
    moreover have "length st + 1
        = length (filter (\<lambda>l. py_in ''*'' (split_once TAB l ! 0)) ?body)"
      using structured_loop_count [OF loop] sp by simp
    ultimately show ?thesis using True out by simp
  next
    case False
    then have ns: "\<forall>l \<in> set ?body. \<not> py_in ''*'' (split_once TAB l ! 0)" by simp
    show ?thesis
    proof (cases "?body = []")
      case True
      with loop have "st = []" "cur = ?init" by simp_all
      with out True False show ?thesis by simp
    next
      case nb: False
      have an: "\<forall>l \<in> set ?body. \<not> py_in ''*'' (split_once TAB l ! 0) \<and>
                  py_in ''%'' (split_once TAB l ! 0)"
      proof
        fix l assume l: "l \<in> set ?body"
        with ns have n: "\<not> py_in ''*'' (split_once TAB l ! 0)" by simp
        from l have "startswith l ''*'' \<or> startswith l ''%''"
          by (simp add: body_of_transcript_def)
        with n py_in_star_startswith have "startswith l ''%''" by blast
        then have "py_in ''%'' (split_once TAB l ! 0)" by (rule py_in_percent_startswith)
        with n show "\<not> py_in ''*'' (split_once TAB l ! 0) \<and> py_in ''%'' (split_once TAB l ! 0)"
          by simp
      qed
      from structured_loop_annotations [OF loop an]
      have st: "st = []"
        and cur: "cur = \<lparr>entry_id = None, speakers_tier = [], dependent_tiers = ?tiers\<rparr>"
        by simp_all
      from nb obtain l where "l \<in> set ?body" by (cases ?body) auto
      with an have "\<exists>l \<in> set ?body. py_in ''%'' (split_once TAB l ! 0)" by blast
      with structured_loop_no_speaker [OF loop ns] have "dependent_tiers cur \<noteq> []" by simp
      with cur have dt: "?tiers \<noteq> []" by simp
      with out st cur have "entries =
          [\<lparr>entry_id = None, speakers_tier = [], dependent_tiers = ?tiers\<rparr>]"
        by simp
      with dt nb False show ?thesis by simp
    qed
  qed
qed

lemma entry_updates_commute:
  "(cur :: entry)\<lparr>dependent_tiers := d, speakers_tier := v\<rparr>
   = cur\<lparr>speakers_tier := v, dependent_tiers := d\<rparr>"
  by (cases cur) simp

lemma structured_loop_leading:
  assumes "\<forall>l \<in> set pre. \<not> py_in ''*'' (split_once TAB l ! 0) \<and> py_in ''%'' (split_once TAB l ! 0)"
    and "py_in ''*'' (split_once TAB s ! 0)"
    and "speakers_tier cur = []"
  shows "structured_loop (pre @ s # rest) st cur idc = structured_loop (s # pre @ rest) st cur idc"
  using assms
proof (induction pre arbitrary: cur)
  case Nil
  then show ?case by simp
next
  case (Cons p ps)
  show ?case
  proof (cases "py_index (split_once TAB p) 1")
    case (Inl e)
    then have "e = IndexError" by (simp add: py_index_def split: if_splits)
    with Inl Cons.prems show ?thesis
      by (auto simp: Let_def py_index_def split: sum.splits if_splits)
  next
    case (Inr tx)
    let ?cur = "cur\<lparr>dependent_tiers :=
        dict_update (strip_chars '':'' (split_once TAB p ! 0)) tx (dependent_tiers cur)\<rparr>"
    have "structured_loop ((p # ps) @ s # rest) st cur idc
        = structured_loop (ps @ s # rest) st ?cur idc"
      using Inr Cons.prems by (simp add: Let_def)
    also have "\<dots> = structured_loop (s # ps @ rest) st ?cur idc"
      using Cons.prems by (intro Cons.IH) simp_all
    also have "\<dots> = structured_loop (s # (p # ps) @ rest) st cur idc"
      using Inr Cons.prems by (simp add: Let_def entry_updates_commute split: sum.splits)
    finally show ?thesis .
  qed
qed

lemma structured_loop_head_keys:
  "structured_loop ls st cur idc = Inr (st', cur') \<Longrightarrow>
   K \<subseteq> fst ` set (dependent_tiers (hd (st @ [cur]))) \<Longrightarrow>
   K \<subseteq> fst ` set (dependent_tiers (hd (st' @ [cur'])))"
proof (induction ls arbitrary: st cur idc)
  case Nil
  then show ?case by simp
next
  case (Cons l ls)
  show ?case
  proof (cases "py_index (split_once TAB l) 1")
    case (Inl e)
    with Cons.prems show ?thesis
      by (auto simp: Let_def split: if_splits dest!: Cons.IH)
  next
    case (Inr tx)
    have a: "K \<subseteq> fst ` set (dependent_tiers (hd ((st @ [cur]) @ [c])))" for c
      using Cons.prems(2) by (cases st) simp_all
    have b: "K \<subseteq> fst ` set (dependent_tiers (hd (st @ [cur\<lparr>speakers_tier := v\<rparr>])))" for v
      using Cons.prems(2) by (cases st) simp_all
    have c: "K \<subseteq> fst ` set (dependent_tiers (hd (st @ [cur\<lparr>dependent_tiers :=
        dict_update k tx (dependent_tiers cur)\<rparr>])))" for k
      using Cons.prems(2) by (cases st) (auto simp: dict_update_keys)
    from Cons.prems(1) Inr show ?thesis
      using Cons.IH [OF _ a] Cons.IH [OF _ b] Cons.IH [OF _ c] Cons.IH [OF _ Cons.prems(2)]
      by (auto simp: Let_def split: if_splits)
  qed
qed


lemma structured_loop_leading_keys:
  "structured_loop (pre @ rest) [] cur idc = Inr (st', cur') \<Longrightarrow>
   \<forall>l \<in> set pre. \<not> py_in ''*'' (split_once TAB l ! 0) \<and> py_in ''%'' (split_once TAB l ! 0) \<Longrightarrow>
   (\<lambda>l. strip_chars '':'' (split_once TAB l ! 0)) ` set pre
     \<subseteq> fst ` set (dependent_tiers (hd (st' @ [cur'])))"
proof (induction pre arbitrary: cur)
  case Nil
  then show ?case by simp
next
  case (Cons p ps)
  from Cons.prems obtain tx where tx: "py_index (split_once TAB p) 1 = Inr tx"
    by (auto simp: Let_def split: sum.splits)
  let ?k = "strip_chars '':'' (split_once TAB p ! 0)"
  let ?cur = "cur\<lparr>dependent_tiers := dict_update ?k tx (dependent_tiers cur)\<rparr>"
  have loop: "structured_loop (ps @ rest) [] ?cur idc = Inr (st', cur')"
    using Cons.prems tx by (simp add: Let_def)
  have "{?k} \<subseteq> fst ` set (dependent_tiers (hd ([] @ [?cur])))"
    by (simp add: dict_update_keys)
  with loop have "{?k} \<subseteq> fst ` set (dependent_tiers (hd (st' @ [cur'])))"
    by (rule structured_loop_head_keys)
  moreover have "(\<lambda>l. strip_chars '':'' (split_once TAB l ! 0)) ` set ps
     \<subseteq> fst ` set (dependent_tiers (hd (st' @ [cur'])))"
    using loop Cons.prems(2) by (intro Cons.IH) simp_all
  ultimately show ?case by simp
qed

text \<open>
  C3, as the code has it. Annotation lines (starting with \<open>%\<close>, no \<open>*\<close> in the marker
  part) before the first speaker line are not discarded: the result is the one obtained
  when they stand right after that speaker line, and when the call returns, the marker
  of each of them is a key of the dependent tiers of the first entry.
\<close>

theorem leading_annotations_kept:
  "body_of_transcript (get_cleaned_transcript recording) = pre @ s # rest \<and>
   (\<forall>l \<in> set pre. startswith l ''%'' \<and> \<not> py_in ''*'' (split_once TAB l ! 0)) \<and>
   startswith s ''*''
   \<longrightarrow> get_structured_transcript recording = structure_lines (s # pre @ rest) \<and>
       (\<forall>entries. get_structured_transcript recording = Inr entries \<longrightarrow>
          entries \<noteq> [] \<and>
          (\<forall>l \<in> set pre. strip_chars '':'' (split_once TAB l ! 0)
                            \<in> fst ` set (dependent_tiers (hd entries))))"
proof (intro impI)
  let ?body = "body_of_transcript (get_cleaned_transcript recording)"
  let ?init = "\<lparr>entry_id = None, speakers_tier = [], dependent_tiers = []\<rparr>"
  assume h: "?body = pre @ s # rest \<and>
   (\<forall>l \<in> set pre. startswith l ''%'' \<and> \<not> py_in ''*'' (split_once TAB l ! 0)) \<and>
   startswith s ''*''"
  then have pre: "\<forall>l \<in> set pre. \<not> py_in ''*'' (split_once TAB l ! 0)
                                 \<and> py_in ''%'' (split_once TAB l ! 0)"
    by (simp add: py_in_percent_startswith)
  from h have sp: "py_in ''*'' (split_once TAB s ! 0)"
    by (simp add: py_in_star_startswith)
  have "\<forall>l \<in> set (pre @ s # rest). startswith l ''*'' \<or> startswith l ''%''"
  proof
    fix l assume "l \<in> set (pre @ s # rest)"
    with h have "l \<in> set ?body" by simp
    then show "startswith l ''*'' \<or> startswith l ''%''"
      by (simp add: body_of_transcript_def)
  qed
  then have body: "body_of_transcript (s # pre @ rest) = s # pre @ rest"
    by (auto simp: body_of_transcript_def)
  have swap: "structured_loop (pre @ s # rest) [] ?init 1
            = structured_loop (s # pre @ rest) [] ?init 1"
    using pre sp by (intro structured_loop_leading) simp_all
  have one: "get_structured_transcript recording = structure_lines (s # pre @ rest)"
    using h body swap by (simp add: get_structured_transcript_def structure_lines_def)
  have two: "entries \<noteq> [] \<and>
          (\<forall>l \<in> set pre. strip_chars '':'' (split_once TAB l ! 0)
                            \<in> fst ` set (dependent_tiers (hd entries)))"
    if r: "get_structured_transcript recording = Inr entries" for entries
  proof -
    from r h obtain st cur where
      loop: "structured_loop (pre @ s # rest) [] ?init 1 = Inr (st, cur)" and
      out: "entries = (if speakers_tier cur \<noteq> [] \<or> dependent_tiers cur \<noteq> []
                       then st @ [cur] else st)"
      by (auto simp: get_structured_transcript_def structure_lines_def
          split: sum.splits prod.splits if_splits)
    have "speakers_tier cur \<noteq> []"
      using structured_loop_speaker_seen [OF loop] sp by simp
    with out have e: "entries = st @ [cur]" by simp
    from structured_loop_leading_keys [OF loop pre] e show ?thesis by auto
  qed
  from one two show "get_structured_transcript recording = structure_lines (s # pre @ rest) \<and>
       (\<forall>entries. get_structured_transcript recording = Inr entries \<longrightarrow>
          entries \<noteq> [] \<and>
          (\<forall>l \<in> set pre. strip_chars '':'' (split_once TAB l ! 0)
                            \<in> fst ` set (dependent_tiers (hd entries))))"
    by blast
qed



text \<open>The theorem on an annotation line followed by two speaker lines, and on three
  annotation lines of which the third repeats the marker of the first.\<close>

theorem speakers_tier_nonempty_witness:
  "get_structured_transcript
     [''%com:'' @ [TAB] @ ''x'', ''*CHI:'' @ [TAB] @ ''hello'', ''*MOT:'' @ [TAB] @ ''yes'']
   = Inr [\<lparr>entry_id = None, speakers_tier = [(''*CHI'', ''hello'')],
           dependent_tiers = [(''%com'', ''x'')]\<rparr>,
          \<lparr>entry_id = Some 2, speakers_tier = [(''*MOT'', ''yes'')], dependent_tiers = []\<rparr>] \<and>
   length [\<lparr>entry_id = None, speakers_tier = [(''*CHI'', ''hello'')],
            dependent_tiers = [(''%com'', ''x'')]\<rparr>,
           \<lparr>entry_id = Some 2, speakers_tier = [(''*MOT'', ''yes'')], dependent_tiers = []\<rparr>]
   = length (filter (\<lambda>l. py_in ''*'' (split_once TAB l ! 0))
       (body_of_transcript (get_cleaned_transcript
          [''%com:'' @ [TAB] @ ''x'', ''*CHI:'' @ [TAB] @ ''hello'',
           ''*MOT:'' @ [TAB] @ ''yes'']))) \<and>
   list_all (\<lambda>e. speakers_tier e \<noteq> [])
     [\<lparr>entry_id = None, speakers_tier = [(''*CHI'', ''hello'')],
       dependent_tiers = [(''%com'', ''x'')]\<rparr>,
      \<lparr>entry_id = Some 2, speakers_tier = [(''*MOT'', ''yes'')], dependent_tiers = []\<rparr>] \<and>
   get_structured_transcript
     [''%com:'' @ [TAB] @ ''a'', ''%mor:'' @ [TAB] @ ''b'', ''%com:'' @ [TAB] @ ''c'']
   = Inr [\<lparr>entry_id = None, speakers_tier = [],
           dependent_tiers = [(''%com'', ''c''), (''%mor'', ''b'')]\<rparr>] \<and>
   foldl (\<lambda>d l. dict_update (strip_chars '':'' (split_once TAB l ! 0)) (split_once TAB l ! 1) d)
     [] (body_of_transcript (get_cleaned_transcript
          [''%com:'' @ [TAB] @ ''a'', ''%mor:'' @ [TAB] @ ''b'', ''%com:'' @ [TAB] @ ''c'']))
   = [(''%com'', ''c''), (''%mor'', ''b'')]"
proof -
  let ?R = "[''%com:'' @ [TAB] @ ''x'', ''*CHI:'' @ [TAB] @ ''hello'', ''*MOT:'' @ [TAB] @ ''yes'']"
  let ?E = "[\<lparr>entry_id = None, speakers_tier = [(''*CHI'', ''hello'')],
           dependent_tiers = [(''%com'', ''x'')]\<rparr>,
          \<lparr>entry_id = Some 2, speakers_tier = [(''*MOT'', ''yes'')], dependent_tiers = []\<rparr>]"
  let ?S = "[''%com:'' @ [TAB] @ ''a'', ''%mor:'' @ [TAB] @ ''b'', ''%com:'' @ [TAB] @ ''c'']"
  let ?F = "[\<lparr>entry_id = None, speakers_tier = [],
           dependent_tiers = [(''%com'', ''c''), (''%mor'', ''b'')]\<rparr>]"
  let ?tiers = "foldl (\<lambda>d l. dict_update (strip_chars '':'' (split_once TAB l ! 0))
                          (split_once TAB l ! 1) d)
                  [] (body_of_transcript (get_cleaned_transcript ?S))"
  have r: "get_structured_transcript ?R = Inr ?E" by code_simp
  have b: "\<exists>l \<in> set (body_of_transcript (get_cleaned_transcript ?R)).
             py_in ''*'' (split_once TAB l ! 0)" by code_simp
  from speakers_tier_nonempty [of ?R ?E] r b
  have k: "length ?E = length (filter (\<lambda>l. py_in ''*'' (split_once TAB l ! 0))
                         (body_of_transcript (get_cleaned_transcript ?R))) \<and>
        (\<forall>e \<in> set ?E. speakers_tier e \<noteq> [])" by presburger
  from k have k1: "length ?E = length (filter (\<lambda>l. py_in ''*'' (split_once TAB l ! 0))
                         (body_of_transcript (get_cleaned_transcript ?R)))" by (rule conjunct1)
  from k have "\<forall>e \<in> set ?E. speakers_tier e \<noteq> []" by (rule conjunct2)
  then have k2: "list_all (\<lambda>e. speakers_tier e \<noteq> []) ?E" by (simp only: list_all_iff)
  have s: "get_structured_transcript ?S = Inr ?F" by code_simp
  have c: "\<not> (\<exists>l \<in> set (body_of_transcript (get_cleaned_transcript ?S)).
             py_in ''*'' (split_once TAB l ! 0))" by code_simp
  have d: "body_of_transcript (get_cleaned_transcript ?S) \<noteq> []" by code_simp
  from speakers_tier_nonempty [of ?S ?F] s c d
  have "?F = [\<lparr>entry_id = None, speakers_tier = [], dependent_tiers = ?tiers\<rparr>] \<and> ?tiers \<noteq> []"
    by presburger
  then have t: "?tiers = [(''%com'', ''c''), (''%mor'', ''b'')]" by simp
  from r k1 k2 s t show ?thesis by (intro conjI)
qed

text \<open>The theorem on one annotation line followed by one speaker line.\<close>

theorem leading_annotations_kept_witness:
  "body_of_transcript (get_cleaned_transcript
      [''%com:'' @ [TAB] @ ''x'', ''*CHI:'' @ [TAB] @ ''hello''])
   = [''%com:'' @ [TAB] @ ''x'', ''*CHI:'' @ [TAB] @ ''hello''] \<and>
   startswith (''%com:'' @ [TAB] @ ''x'') ''%'' \<and>
   \<not> py_in ''*'' (split_once TAB (''%com:'' @ [TAB] @ ''x'') ! 0) \<and>
   startswith (''*CHI:'' @ [TAB] @ ''hello'') ''*'' \<and>
   get_structured_transcript [''%com:'' @ [TAB] @ ''x'', ''*CHI:'' @ [TAB] @ ''hello'']
   = structure_lines [''*CHI:'' @ [TAB] @ ''hello'', ''%com:'' @ [TAB] @ ''x''] \<and>
   get_structured_transcript [''%com:'' @ [TAB] @ ''x'', ''*CHI:'' @ [TAB] @ ''hello'']
   = Inr [\<lparr>entry_id = None, speakers_tier = [(''*CHI'', ''hello'')],
           dependent_tiers = [(''%com'', ''x'')]\<rparr>] \<and>
   strip_chars '':'' (split_once TAB (''%com:'' @ [TAB] @ ''x'') ! 0)
     \<in> fst ` set (dependent_tiers (hd
          [\<lparr>entry_id = None, speakers_tier = [(''*CHI'', ''hello'')],
            dependent_tiers = [(''%com'', ''x'')]\<rparr>]))"
proof -
  let ?p = "''%com:'' @ [TAB] @ ''x''"
  let ?s = "''*CHI:'' @ [TAB] @ ''hello''"
  let ?E = "[\<lparr>entry_id = None, speakers_tier = [(''*CHI'', ''hello'')],
           dependent_tiers = [(''%com'', ''x'')]\<rparr>]"
  have a: "body_of_transcript (get_cleaned_transcript [?p, ?s]) = [?p, ?s]" by code_simp
  have b: "startswith ?p ''%''" by code_simp
  have c: "\<not> py_in ''*'' (split_once TAB ?p ! 0)" by code_simp
  have d: "startswith ?s ''*''" by code_simp
  have r: "get_structured_transcript [?p, ?s] = Inr ?E" by code_simp
  from a b c d have h: "body_of_transcript (get_cleaned_transcript [?p, ?s]) = [?p] @ ?s # [] \<and>
    (\<forall>l \<in> set [?p]. startswith l ''%'' \<and> \<not> py_in ''*'' (split_once TAB l ! 0)) \<and>
    startswith ?s ''*''" by simp
  note k = leading_annotations_kept [of "[?p, ?s]" "[?p]" ?s "[]", THEN mp, OF h]
  from k have "get_structured_transcript [?p, ?s] = structure_lines (?s # [?p] @ [])"
    by (rule conjunct1)
  then have e: "get_structured_transcript [?p, ?s] = structure_lines [?s, ?p]"
    by (simp only: append_Cons append_Nil)
  from k [THEN conjunct2, THEN spec, THEN mp, OF r]
  have "\<forall>l \<in> set [?p]. strip_chars '':'' (split_once TAB l ! 0)
     \<in> fst ` set (dependent_tiers (hd ?E))" by (rule conjunct2)
  then have m: "strip_chars '':'' (split_once TAB ?p ! 0)
     \<in> fst ` set (dependent_tiers (hd ?E))" by (simp only: list.set ball_simps)
  from a b c d e r m show ?thesis by (intro conjI)
qed

text \<open>
  The claim C2 as stated fails on a recording with an annotation line and no speaker
  line: the single entry returned has an empty speaker's tier.
\<close>

theorem speakers_tier_nonempty_counterexample:
  "get_structured_transcript [''%mor:'' @ [TAB] @ ''n|hello''] =
     Inr [\<lparr>entry_id = None, speakers_tier = [],
           dependent_tiers = [(''%mor'', ''n|hello'')]\<rparr>] \<and>
   speakers_tier \<lparr>entry_id = None, speakers_tier = [],
                  dependent_tiers = [(''%mor'', ''n|hello'')]\<rparr> = []"
  by code_simp

text \<open>
  The claim C3 as stated fails on an annotation line followed by a speaker line: the
  pair of the leading annotation line is in the dependent tiers of the first entry.
\<close>

theorem leading_annotations_kept_counterexample:
  "get_structured_transcript [''%mor:'' @ [TAB] @ ''n|hello'', ''*CHI:'' @ [TAB] @ ''hello''] =
     Inr [\<lparr>entry_id = None, speakers_tier = [(''*CHI'', ''hello'')],
           dependent_tiers = [(''%mor'', ''n|hello'')]\<rparr>] \<and>
   (''%mor'', ''n|hello'') \<in> set (dependent_tiers
      \<lparr>entry_id = None, speakers_tier = [(''*CHI'', ''hello'')],
       dependent_tiers = [(''%mor'', ''n|hello'')]\<rparr>)"
  by code_simp

section \<open>Properties of tokenize\<close>

lemma startswith_Nil [simp]: "startswith c []"
  by (simp add: startswith_def)

lemma endswith_Nil [simp]: "endswith c []"
  by (simp add: endswith_def)

lemma startswith_nonempty_shorter:
  "startswith c ign \<Longrightarrow> ign \<noteq> [] \<Longrightarrow> length (drop (length ign) c) < length c"
  by (cases c) (auto simp: startswith_def)

lemma endswith_nonempty_shorter:
  "endswith c ign \<Longrightarrow> ign \<noteq> [] \<Longrightarrow> length (drop_suffix_len (length ign) c) < length c"
  by (cases c) (auto simp: endswith_def drop_suffix_len_def)

lemma drop_suffix_len_length: "length (drop_suffix_len n c) \<le> length c"
  by (simp add: drop_suffix_len_def)

lemma drop_suffix_len_set: "set (drop_suffix_len n c) \<subseteq> set c"
  by (auto simp: drop_suffix_len_def dest: in_set_takeD)

text \<open>One entry of the ignore list: what the body of the for loop does.\<close>

lemma strip_pass_Cons:
  "strip_pass (ign # igns) c s =
     strip_pass igns
       (if endswith (if startswith c ign then drop (length ign) c else c) ign
        then drop_suffix_len (length ign) (if startswith c ign then drop (length ign) c else c)
        else (if startswith c ign then drop (length ign) c else c))
       (s \<or> startswith c ign
          \<or> endswith (if startswith c ign then drop (length ign) c else c) ign)"
  by (simp add: Let_def)

lemma strip_pass_props:
  "strip_pass igns c s = (c', s') \<Longrightarrow>
     length c' \<le> length c \<and> set c' \<subseteq> set c \<and> (s \<longrightarrow> s') \<and>
     (s' \<and> \<not> s \<longrightarrow> c' = [] \<or> length c' < length c) \<and>
     (\<not> s' \<longrightarrow> c' = c \<and> (\<forall>ign \<in> set igns. \<not> startswith c ign \<and> \<not> endswith c ign))"
proof (induction igns arbitrary: c s)
  case Nil
  then show ?case by auto
next
  case (Cons ign igns)
  define c1 where "c1 = (if startswith c ign then drop (length ign) c else c)"
  define c2 where "c2 = (if endswith c1 ign then drop_suffix_len (length ign) c1 else c1)"
  define s2 where "s2 = (s \<or> startswith c ign \<or> endswith c1 ign)"
  from Cons.prems have r: "strip_pass igns c2 s2 = (c', s')"
    by (simp only: strip_pass_Cons c1_def c2_def s2_def)
  note ih = Cons.IH [OF r]
  have l1: "length c1 \<le> length c" by (simp add: c1_def)
  have l2: "length c2 \<le> length c1" by (simp add: c2_def drop_suffix_len_length)
  have s1: "set c1 \<subseteq> set c" by (auto simp: c1_def dest: in_set_dropD)
  have s2: "set c2 \<subseteq> set c1" using drop_suffix_len_set by (auto simp: c2_def)
  have short: "c2 = [] \<or> length c2 < length c" if "startswith c ign \<or> endswith c1 ign"
  proof (cases "ign = []")
    case True
    then show ?thesis by (simp add: c2_def drop_suffix_len_def)
  next
    case False
    show ?thesis
    proof (cases "endswith c1 ign")
      case True
      then have "length c2 < length c1"
        using endswith_nonempty_shorter [OF True False] by (simp add: c2_def)
      with l1 show ?thesis by linarith
    next
      case nf: False
      with that have st: "startswith c ign" by simp
      then have "length c1 < length c"
        using startswith_nonempty_shorter [OF st False] by (simp add: c1_def)
      with nf show ?thesis by (simp add: c2_def)
    qed
  qed
  have a: "length c' \<le> length c" using ih l1 l2 by linarith
  have b: "set c' \<subseteq> set c" using ih s1 s2 by blast
  have c: "s \<longrightarrow> s'" using ih by (simp add: s2_def)
  have d: "c' = [] \<or> length c' < length c" if "s'" "\<not> s"
  proof (cases "startswith c ign \<or> endswith c1 ign")
    case True
    from short [OF True] show ?thesis
    proof
      assume "c2 = []"
      with ih have "length c' \<le> 0" by simp
      then show ?thesis by simp
    next
      assume "length c2 < length c"
      with ih show ?thesis by linarith
    qed
  next
    case False
    then have "c1 = c" by (simp add: c1_def)
    with False have "c2 = c" "\<not> s2" using that by (simp_all add: c2_def s2_def)
    with ih that show ?thesis by simp
  qed
  have e: "c' = c \<and> (\<forall>i \<in> set (ign # igns). \<not> startswith c i \<and> \<not> endswith c i)" if "\<not> s'"
  proof -
    from ih that have n: "\<not> s2" and eq: "c' = c2"
      and rest: "\<forall>i \<in> set igns. \<not> startswith c2 i \<and> \<not> endswith c2 i" by auto
    from n have ns: "\<not> startswith c ign" by (simp add: s2_def)
    then have "c1 = c" by (simp add: c1_def)
    with n have "\<not> endswith c ign" "c2 = c" by (simp_all add: s2_def c2_def)
    with eq rest ns show ?thesis by simp
  qed
  from a b c d e show ?case by blast
qed

lemma strip_pass_no_match:
  "\<forall>ign \<in> set igns. \<not> startswith c ign \<and> \<not> endswith c ign \<Longrightarrow> strip_pass igns c s = (c, s)"
  by (induction igns) (simp_all add: Let_def)

lemma strip_while_exit:
  "\<not> (s \<and> c \<noteq> []) \<Longrightarrow> strip_while igns c s = Some c"
  by (subst strip_while.simps) auto

lemma strip_while_step:
  "s \<and> c \<noteq> [] \<Longrightarrow> strip_pass igns c False = (c', s') \<Longrightarrow>
   strip_while igns c s = strip_while igns c' s'"
  by (subst strip_while.simps) auto

text \<open>The while loop returns on every ignore list and every token.\<close>

lemma strip_while_returns:
  "\<exists>r. strip_while igns c s = Some r \<and> set r \<subseteq> set c \<and>
       (s \<longrightarrow> r = [] \<or> (\<forall>ign \<in> set igns. \<not> startswith r ign \<and> \<not> endswith r ign))"
proof (induction "length c" arbitrary: c s rule: less_induct)
  case less
  show ?case
  proof (cases "s \<and> c \<noteq> []")
    case False
    then have "strip_while igns c s = Some c" by (rule strip_while_exit)
    with False show ?thesis by auto
  next
    case True
    obtain c' s' where p: "strip_pass igns c False = (c', s')"
      by (cases "strip_pass igns c False")
    note props = strip_pass_props [OF p]
    from True p have step: "strip_while igns c s = strip_while igns c' s'"
      by (rule strip_while_step)
    show ?thesis
    proof (cases s')
      case False
      then have "strip_while igns c' s' = Some c'" by (simp add: strip_while_exit)
      with step props False show ?thesis by auto
    next
      case st: True
      show ?thesis
      proof (cases "c' = []")
        case True
        then have "strip_while igns c' s' = Some []" by (simp add: strip_while_exit)
        with step show ?thesis by simp
      next
        case False
        with props st have "length c' < length c" by simp
        from less [OF this, of s'] obtain r where
          r: "strip_while igns c' s' = Some r" "set r \<subseteq> set c'"
             "r = [] \<or> (\<forall>ign \<in> set igns. \<not> startswith r ign \<and> \<not> endswith r ign)"
          using st by auto
        with step props show ?thesis by auto
      qed
    qed
  qed
qed

lemma split_ws_from_tokens:
  "\<forall>ch \<in> set cur. \<not> isspace ch \<Longrightarrow> w \<in> set (split_ws_from cur inp) \<Longrightarrow>
   w \<noteq> [] \<and> (\<forall>ch \<in> set w. \<not> isspace ch)"
proof (induction inp arbitrary: cur)
  case Nil
  then show ?case by (auto split: if_splits)
next
  case (Cons a inp)
  show ?case
  proof (cases "isspace a")
    case True
    with Cons.prems(2) have "w = cur \<and> cur \<noteq> [] \<or> w \<in> set (split_ws_from [] inp)"
      by (auto split: if_splits)
    then show ?thesis
    proof
      assume "w = cur \<and> cur \<noteq> []"
      with Cons.prems(1) show ?thesis by simp
    next
      assume "w \<in> set (split_ws_from [] inp)"
      with Cons.IH [of "[]"] show ?thesis by simp
    qed
  next
    case False
    with Cons.prems(2) have "w \<in> set (split_ws_from (cur @ [a]) inp)" by simp
    moreover have "\<forall>ch \<in> set (cur @ [a]). \<not> isspace ch"
      using False Cons.prems(1) by simp
    ultimately show ?thesis using Cons.IH [of "cur @ [a]"] by blast
  qed
qed

lemma split_ws_from_single:
  "\<forall>ch \<in> set t. \<not> isspace ch \<Longrightarrow>
   split_ws_from cur t = (if cur @ t = [] then [] else [cur @ t])"
  by (induction t arbitrary: cur) simp_all

lemma split_ws_single:
  "t \<noteq> [] \<Longrightarrow> \<forall>ch \<in> set t. \<not> isspace ch \<Longrightarrow> split_ws t = [t]"
  by (simp add: split_ws_def split_ws_from_single)

text \<open>What the generator yields for a list of raw tokens.\<close>

lemma tokenize_raws_returns:
  "\<exists>ts. tokenize_raws igns raws = Some ts \<and> length ts \<le> length raws \<and>
     (\<forall>t \<in> set ts. t \<noteq> [] \<and> list_ex isalnum t \<and> (\<exists>raw \<in> set raws. set t \<subseteq> set raw) \<and>
        (\<forall>ign \<in> set igns. \<not> startswith t ign \<and> \<not> endswith t ign))"
proof (induction raws)
  case Nil
  show ?case by simp
next
  case (Cons raw raws)
  from strip_while_returns [of igns raw True] obtain r where
    r: "strip_while igns raw True = Some r" "set r \<subseteq> set raw"
       "r = [] \<or> (\<forall>ign \<in> set igns. \<not> startswith r ign \<and> \<not> endswith r ign)"
    by auto
  from Cons.IH obtain ts where
    ts: "tokenize_raws igns raws = Some ts" "length ts \<le> length raws"
        "\<forall>t \<in> set ts. t \<noteq> [] \<and> list_ex isalnum t \<and> (\<exists>raw \<in> set raws. set t \<subseteq> set raw) \<and>
           (\<forall>ign \<in> set igns. \<not> startswith t ign \<and> \<not> endswith t ign)"
    by auto
  show ?case
  proof (cases "r \<noteq> [] \<and> list_ex isalnum r")
    case True
    with r ts have "tokenize_raws igns (raw # raws) = Some (r # ts)" by simp
    moreover have "\<forall>t \<in> set (r # ts). t \<noteq> [] \<and> list_ex isalnum t \<and>
        (\<exists>x \<in> set (raw # raws). set t \<subseteq> set x) \<and>
        (\<forall>ign \<in> set igns. \<not> startswith t ign \<and> \<not> endswith t ign)"
      using True r ts(3) by auto
    ultimately show ?thesis using ts(2) by simp
  next
    case False
    with r ts have "tokenize_raws igns (raw # raws) = Some ts" by auto
    moreover have "\<forall>t \<in> set ts. t \<noteq> [] \<and> list_ex isalnum t \<and>
        (\<exists>x \<in> set (raw # raws). set t \<subseteq> set x) \<and>
        (\<forall>ign \<in> set igns. \<not> startswith t ign \<and> \<not> endswith t ign)"
      using ts(3) by auto
    ultimately show ?thesis using ts(2) by simp
  qed
qed

text \<open>A token that no entry of the ignore list matches at either end is what
  \<open>tokenize\<close> yields for it.\<close>

lemma tokenize_fixed_point:
  assumes "t \<noteq> []" "\<forall>ch \<in> set t. \<not> isspace ch" "list_ex isalnum t"
    and "\<forall>ign \<in> set igns. \<not> startswith t ign \<and> \<not> endswith t ign"
  shows "tokenize t igns = Some [t]"
proof -
  have "strip_pass igns t False = (t, False)"
    using assms(4) by (rule strip_pass_no_match)
  with assms(1) have "strip_while igns t True = strip_while igns t False"
    by (intro strip_while_step) simp_all
  also have "\<dots> = Some t" by (simp add: strip_while_exit)
  finally show ?thesis
    using assms(1,2,3) by (simp add: tokenize_def split_ws_single)
qed

text \<open>
  C8. For every text and every ignore list, \<open>tokenize\<close> returns, and every token it yields
  is a fixed point: tokenizing the token with the same ignore list yields exactly that
  token, and no entry of the ignore list is a prefix or a suffix of it.
\<close>

theorem tokenize_idempotent:
  "\<exists>ts. tokenize text igns = Some ts \<and>
     (\<forall>t \<in> set ts. tokenize t igns = Some [t] \<and>
        (\<forall>ign \<in> set igns. \<not> startswith t ign \<and> \<not> endswith t ign))"
proof -
  from tokenize_raws_returns [of igns "split_ws text"] obtain ts where
    ts: "tokenize_raws igns (split_ws text) = Some ts"
        "\<forall>t \<in> set ts. t \<noteq> [] \<and> list_ex isalnum t \<and>
           (\<exists>raw \<in> set (split_ws text). set t \<subseteq> set raw) \<and>
           (\<forall>ign \<in> set igns. \<not> startswith t ign \<and> \<not> endswith t ign)"
    by auto
  have "tokenize t igns = Some [t] \<and>
        (\<forall>ign \<in> set igns. \<not> startswith t ign \<and> \<not> endswith t ign)" if "t \<in> set ts" for t
  proof -
    from ts(2) that obtain raw where
      t: "t \<noteq> []" "list_ex isalnum t" "raw \<in> set (split_ws text)" "set t \<subseteq> set raw"
         "\<forall>ign \<in> set igns. \<not> startswith t ign \<and> \<not> endswith t ign"
      by auto
    from t(3) have "\<forall>ch \<in> set raw. \<not> isspace ch"
      using split_ws_from_tokens [of "[]" raw "text"] by (simp add: split_ws_def)
    with t(4) have "\<forall>ch \<in> set t. \<not> isspace ch" by auto
    with t show ?thesis by (simp add: tokenize_fixed_point)
  qed
  with ts(1) show ?thesis by (auto simp: tokenize_def)
qed

text \<open>
  When no entry of the ignore list is the empty string, \<open>tokenize\<close> returns a list of at
  most as many tokens as the text has raw tokens, and a pass over the ignore list that
  reports a change leaves a strictly shorter token: the length of the token is the
  measure of the loop \<open>while stripping and cleaned\<close>.
\<close>

lemma tokenize_returns_nonempty_entries:
  assumes "\<forall>ign \<in> set igns. ign \<noteq> []"
  shows "(\<exists>ts. tokenize text igns = Some ts \<and> length ts \<le> length (split_ws text)) \<and>
         (\<forall>cleaned. snd (strip_pass igns cleaned False)
            \<longrightarrow> length (fst (strip_pass igns cleaned False)) < length cleaned)"
proof (intro conjI allI impI)
  from tokenize_raws_returns [of igns "split_ws text"]
  show "\<exists>ts. tokenize text igns = Some ts \<and> length ts \<le> length (split_ws text)"
    by (auto simp: tokenize_def)
next
  fix cleaned
  assume h: "snd (strip_pass igns cleaned False)"
  obtain c' s' where p: "strip_pass igns cleaned False = (c', s')"
    by (cases "strip_pass igns cleaned False")
  have "cleaned \<noteq> []"
  proof
    assume e: "cleaned = []"
    from assms have "\<forall>ign \<in> set igns. \<not> startswith [] ign \<and> \<not> endswith [] ign"
      by (auto simp: startswith_def endswith_def)
    then have "strip_pass igns [] False = ([], False)" by (rule strip_pass_no_match)
    with h e show False by simp
  qed
  with strip_pass_props [OF p] h p
  show "length (fst (strip_pass igns cleaned False)) < length cleaned" by auto
qed

text \<open>The theorem on a text with the default ignore list.\<close>

theorem tokenize_idempotent_witness:
  "tokenize ''(.)hello, world.. [?]'' default_ignore = Some [''hello'', ''world''] \<and>
   tokenize ''hello'' default_ignore = Some [''hello''] \<and>
   tokenize ''world'' default_ignore = Some [''world''] \<and>
   \<not> startswith ''hello'' '','' \<and> \<not> endswith ''world'' ''.''"
proof -
  have r: "tokenize ''(.)hello, world.. [?]'' default_ignore = Some [''hello'', ''world'']"
    by code_simp
  from tokenize_idempotent [of "''(.)hello, world.. [?]''" default_ignore] r
  have a: "\<forall>t \<in> set [''hello'', ''world'']. tokenize t default_ignore = Some [t] \<and>
        (\<forall>ign \<in> set default_ignore. \<not> startswith t ign \<and> \<not> endswith t ign)"
    by auto
  have "'','' \<in> set default_ignore" "''.'' \<in> set default_ignore"
    by (simp_all add: default_ignore_def)
  with a r show ?thesis by auto
qed

text \<open>
  C10. An empty string in the ignore list does not make the loop run forever, as it
  would if stripping an empty entry left the token as it is. On the raw token \<open>a\<close> with
  the ignore list \<open>[""]\<close> both tests succeed. The prefix branch, \<open>cleaned[len(ign):]\<close>,
  leaves the token as it is; the suffix branch, \<open>cleaned[:-len(ign)]\<close>, is \<open>cleaned[:-0]\<close>,
  the empty string. So the first pass returns the empty token, the loop stops, and
  \<open>tokenize\<close> yields nothing for the text \<open>a\<close>, which has no ignore-list item at either
  end to strip and which is yielded with the empty ignore list.
\<close>

theorem tokenize_empty_entry:
  "startswith ''a'' [] \<and> drop (length ([] :: string)) ''a'' = ''a'' \<and>
   endswith ''a'' [] \<and> drop_suffix_len (length ([] :: string)) ''a'' = [] \<and>
   strip_pass [[]] ''a'' False = ([], True) \<and>
   strip_while [[]] ''a'' True = Some [] \<and>
   tokenize ''a'' [[]] = Some [] \<and>
   tokenize ''a'' [] = Some [''a'']"
  by code_simp

section \<open>Properties of get_frequencies\<close>

lemma structured_loop_error:
  "structured_loop ls st cur idc = Inl e \<Longrightarrow> e = IndexError"
proof (induction ls arbitrary: st cur idc)
  case Nil
  then show ?case by simp
next
  case (Cons l ls)
  from Cons.prems show ?case
    by (auto simp: Let_def py_index_def split: if_splits sum.splits dest!: Cons.IH)
qed

lemma get_structured_transcript_error:
  "get_structured_transcript recording = Inl e \<Longrightarrow> e = IndexError"
  by (auto simp: get_structured_transcript_def structure_lines_def
      split: sum.splits prod.splits if_splits dest: structured_loop_error)

lemma frequencies_loop_error:
  "frequencies_loop els speaker tier pattern match_type wc = Some (Inl e) \<Longrightarrow> e = KeyError"
proof (induction els arbitrary: wc)
  case Nil
  then show ?case by simp
next
  case (Cons el els)
  from Cons.prems Cons.IH show ?case
    by (fastforce simp: dict_get_def split: if_splits sum.splits option.splits)
qed

text \<open>
  C5, as the code has it. The test is \<open>if pattern and match_type not in {...}\<close>, and it
  comes after the call of \<open>get_structured_transcript\<close>. So \<open>get_frequencies\<close> raises the
  \<open>ValueError\<close> of the match mode exactly when the structured transcript is computed
  without an exception, the pattern is neither \<open>None\<close> nor empty, and the match mode is
  none of the four.
\<close>

theorem invalid_match_mode:
  "(get_frequencies recording speaker tier pattern match_type = Some (Inl ValueError)) =
   ((\<exists>st. get_structured_transcript recording = Inr st) \<and> truthy pattern \<and>
    match_type \<notin> set match_types)"
proof (cases "get_structured_transcript recording")
  case (Inl e)
  then have "e = IndexError" by (rule get_structured_transcript_error)
  with Inl show ?thesis by (simp add: get_frequencies_def)
next
  case (Inr st)
  show ?thesis
  proof (cases "truthy pattern \<and> match_type \<notin> set match_types")
    case True
    with Inr show ?thesis by (simp add: get_frequencies_def)
  next
    case False
    have "frequencies_loop els speaker tier pattern match_type [] \<noteq> Some (Inl ValueError)" for els
      using frequencies_loop_error by fastforce
    with Inr False show ?thesis
      by (auto simp: get_frequencies_def Let_def split: option.splits sum.splits)
  qed
qed

text \<open>The theorem on a one-line recording with a pattern and an unsupported mode.\<close>

theorem invalid_match_mode_witness:
  "get_structured_transcript [''*CHI:'' @ [TAB] @ ''bar bar''] =
     Inr [\<lparr>entry_id = None, speakers_tier = [(''*CHI'', ''bar bar'')], dependent_tiers = []\<rparr>] \<and>
   truthy (Some ''bar'') \<and> ''bogus'' \<notin> set match_types \<and>
   get_frequencies [''*CHI:'' @ [TAB] @ ''bar bar''] ''*CHI'' ''utterance'' (Some ''bar'') ''bogus''
     = Some (Inl ValueError) \<and>
   get_frequencies [''*CHI:'' @ [TAB] @ ''bar bar''] ''*CHI'' ''utterance'' (Some ''bar'') ''equals''
     = Some (Inr [(''bar'', 2)])"
proof -
  let ?R = "[''*CHI:'' @ [TAB] @ ''bar bar'']"
  have a: "get_structured_transcript ?R =
     Inr [\<lparr>entry_id = None, speakers_tier = [(''*CHI'', ''bar bar'')], dependent_tiers = []\<rparr>]"
    by code_simp
  have b: "truthy (Some ''bar'')" by code_simp
  have c: "''bogus'' \<notin> set match_types" by code_simp
  from a b c invalid_match_mode [of ?R "''*CHI''" "''utterance''" "Some ''bar''" "''bogus''"]
  have d: "get_frequencies ?R ''*CHI'' ''utterance'' (Some ''bar'') ''bogus'' = Some (Inl ValueError)"
    by blast
  have e: "get_frequencies ?R ''*CHI'' ''utterance'' (Some ''bar'') ''equals'' = Some (Inr [(''bar'', 2)])"
    by code_simp
  from a b c d e show ?thesis by blast
qed

text \<open>
  The claim C5 as stated fails without a pattern: the unsupported mode \<open>bogus\<close> is not
  rejected, and the frequencies are returned.
\<close>

theorem invalid_match_mode_counterexample:
  "''bogus'' \<notin> set [''startswith'', ''contains'', ''endswith'', ''equals''] \<and>
   get_frequencies [''*CHI:'' @ [TAB] @ ''bar bar''] ''*CHI'' ''utterance'' None ''bogus''
     = Some (Inr [(''bar'', 2)])"
  by code_simp

section \<open>Properties of get_participants_and_age and get_age_in_days\<close>

lemma py_in_single: "py_in [x] s = (x \<in> set s)"
  by (induction s) (auto simp: startswith_def)

lemma py_index_first:
  "py_index ys 0 = (case ys of [] \<Rightarrow> Inl IndexError | y # _ \<Rightarrow> Inr y)"
  by (cases ys) (simp_all add: py_index_def)

lemma find_as_filter:
  "find P xs = (case filter P xs of [] \<Rightarrow> None | x # _ \<Rightarrow> Some x)"
  by (induction xs) simp_all

lemma py_index_filter_find:
  "py_index (filter P xs) 0 = (case find P xs of None \<Rightarrow> Inl IndexError | Some x \<Rightarrow> Inr x)"
  by (simp add: py_index_first find_as_filter split: list.splits)

lemma py_index_pair: "py_index [a, b] 1 = Inr b"
  by (simp add: py_index_def)

lemma py_index_single: "py_index [a] 1 = Inl IndexError"
  by (simp add: py_index_def)

lemma split_once_second:
  "py_index (split_once sep s) 1 =
     (if sep \<in> set s then Inr (tl (dropWhile (\<lambda>c. c \<noteq> sep) s)) else Inl IndexError)"
proof (cases "sep \<in> set s")
  case False
  then have "\<forall>c \<in> set s. c \<noteq> sep" by blast
  then have d: "dropWhile (\<lambda>c. c \<noteq> sep) s = []"
    by (rule dropWhile_eq_Nil_conv [THEN iffD2])
  have "split_once sep s = [s]"
    by (simp only: split_once_def d list.case)
  with False show ?thesis by (simp only: py_index_single if_False)
next
  case True
  then have "\<not> (\<forall>c \<in> set s. c \<noteq> sep)" by blast
  then have "dropWhile (\<lambda>c. c \<noteq> sep) s \<noteq> []"
    by (simp only: dropWhile_eq_Nil_conv not_False_eq_True)
  then obtain a rest where d: "dropWhile (\<lambda>c. c \<noteq> sep) s = a # rest"
    by (auto simp only: neq_Nil_conv)
  have "split_once sep s = [takeWhile (\<lambda>c. c \<noteq> sep) s, rest]"
    by (simp only: split_once_def d list.case)
  with True show ?thesis by (simp only: py_index_pair d list.sel if_True)
qed

lemma split_on_nonempty: "split_on sep s \<noteq> []"
  by (induction s) (auto split: list.splits)

lemma split_on_field:
  "x \<noteq> sep \<Longrightarrow> x \<in> set s \<Longrightarrow> \<exists>f \<in> set (split_on sep s). x \<in> set f"
proof (induction s)
  case Nil
  then show ?case by simp
next
  case (Cons c cs)
  show ?case
  proof (cases "c = sep")
    case True
    with Cons show ?thesis by auto
  next
    case False
    obtain f fs where fs: "split_on sep cs = f # fs"
      using split_on_nonempty [of sep cs] by (cases "split_on sep cs") auto
    show ?thesis
    proof (cases "x = c")
      case True
      with False fs show ?thesis by simp
    next
      case nx: False
      with Cons have "\<exists>g \<in> set (f # fs). x \<in> set g" by (simp add: fs)
      with False fs show ?thesis by auto
    qed
  qed
qed

text \<open>
  C6, as the code has it. \<open>get_participants_and_age\<close> fails exactly when the cleaned
  lines have no line starting with \<open>@Participants\<close>, or the first such line has no tab, or
  there is no line starting with \<open>@ID\<close> that contains \<open>;\<close>. Every failure is an
  \<open>IndexError\<close>. Otherwise the result holds the text after the first tab of the first
  \<open>@Participants\<close> line and the first \<open>|\<close>-separated field containing \<open>;\<close> of the first
  qualifying \<open>@ID\<close> line.
\<close>

theorem participants_and_age_failure:
  "((\<exists>e. get_participants_and_age recording = Inl e) =
     (\<not> (\<exists>l \<in> set (get_cleaned_transcript recording). startswith l ''@Participants'') \<or>
      (\<exists>pl. find (\<lambda>l. startswith l ''@Participants'') (get_cleaned_transcript recording)
              = Some pl \<and> TAB \<notin> set pl) \<or>
      \<not> (\<exists>l \<in> set (get_cleaned_transcript recording).
            startswith l ''@ID'' \<and> py_in '';'' l))) \<and>
   (get_participants_and_age recording = Inl e \<longrightarrow> e = IndexError) \<and>
   (find (\<lambda>l. startswith l ''@Participants'') (get_cleaned_transcript recording) = Some pl \<and>
    TAB \<in> set pl \<and>
    find (\<lambda>l. startswith l ''@ID'' \<and> py_in '';'' l) (get_cleaned_transcript recording) = Some al
    \<longrightarrow> (\<exists>a. find (\<lambda>bit. py_in '';'' bit) (split_on (CHR ''|'') al) = Some a \<and>
            get_participants_and_age recording =
              Inr \<lparr>participants = tl (dropWhile (\<lambda>c. c \<noteq> TAB) pl), age = a\<rparr>))"
proof -
  let ?cl = "get_cleaned_transcript recording"
  let ?P = "\<lambda>l. startswith l ''@Participants''"
  let ?A = "\<lambda>l. startswith l ''@ID'' \<and> py_in '';'' l"
  let ?B = "\<lambda>bit. py_in '';'' bit"
  have field: "\<exists>a. find ?B (split_on (CHR ''|'') al) = Some a" if "?A al" for al
  proof -
    from that have "CHR '';'' \<in> set al" by (simp add: py_in_single)
    then have "\<exists>f \<in> set (split_on (CHR ''|'') al). CHR '';'' \<in> set f"
      by (intro split_on_field) simp_all
    then have "find ?B (split_on (CHR ''|'') al) \<noteq> None"
      by (auto simp: find_None_iff py_in_single)
    then show ?thesis by auto
  qed
  have unfolded: "get_participants_and_age recording =
    (case find ?P ?cl of
       None \<Rightarrow> Inl IndexError
     | Some pl \<Rightarrow>
         if TAB \<in> set pl then
           (case find ?A ?cl of
              None \<Rightarrow> Inl IndexError
            | Some al \<Rightarrow>
                (case find ?B (split_on (CHR ''|'') al) of
                   None \<Rightarrow> Inl IndexError
                 | Some a \<Rightarrow> Inr \<lparr>participants = tl (dropWhile (\<lambda>c. c \<noteq> TAB) pl), age = a\<rparr>))
         else Inl IndexError)"
    unfolding get_participants_and_age_def Let_def py_index_filter_find split_once_second
    by (simp split: option.splits)
  have A_found: "?A al" if "find ?A ?cl = Some al" for al
    using that by (auto simp: find_Some_iff)
  show ?thesis
  proof (intro conjI impI)
    show "(\<exists>e. get_participants_and_age recording = Inl e) =
     (\<not> (\<exists>l \<in> set ?cl. ?P l) \<or> (\<exists>pl. find ?P ?cl = Some pl \<and> TAB \<notin> set pl) \<or>
      \<not> (\<exists>l \<in> set ?cl. ?A l))"
    proof (cases "find ?P ?cl")
      case None
      have nex: "\<not> (\<exists>l \<in> set ?cl. ?P l)" using None by (auto simp: find_None_iff)
      show ?thesis unfolding unfolded None using nex by simp
    next
      case (Some pl)
      have ex: "\<exists>l \<in> set ?cl. ?P l" using Some by (auto simp: find_Some_iff)
      show ?thesis
      proof (cases "find ?A ?cl")
        case None
        have nexa: "\<not> (\<exists>l \<in> set ?cl. ?A l)" using None by (auto simp: find_None_iff)
        show ?thesis unfolding unfolded Some None using ex nexa by simp
      next
        case al: (Some al)
        have exa: "\<exists>l \<in> set ?cl. ?A l" using al by (auto simp: find_Some_iff)
        from field [OF A_found [OF al]] obtain a where
          a: "find ?B (split_on (CHR ''|'') al) = Some a" by auto
        have g: "get_participants_and_age recording =
            (if TAB \<in> set pl
             then Inr \<lparr>participants = tl (dropWhile (\<lambda>c. c \<noteq> TAB) pl), age = a\<rparr>
             else Inl IndexError)"
          by (simp add: unfolded Some al a)
        have lhs: "(\<exists>e. get_participants_and_age recording = Inl e) = (TAB \<notin> set pl)"
          by (simp add: g)
        have rhs: "(\<not> (\<exists>l \<in> set ?cl. ?P l) \<or> (\<exists>pl. find ?P ?cl = Some pl \<and> TAB \<notin> set pl) \<or>
            \<not> (\<exists>l \<in> set ?cl. ?A l)) = (TAB \<notin> set pl)"
          using ex exa by (simp add: Some)
        show ?thesis by (simp only: lhs rhs)
      qed
    qed
  next
    assume "get_participants_and_age recording = Inl e"
    then have "(case find ?P ?cl of
       None \<Rightarrow> Inl IndexError
     | Some pl \<Rightarrow>
         if TAB \<in> set pl then
           (case find ?A ?cl of
              None \<Rightarrow> Inl IndexError
            | Some al \<Rightarrow>
                (case find ?B (split_on (CHR ''|'') al) of
                   None \<Rightarrow> Inl IndexError
                 | Some a \<Rightarrow> Inr \<lparr>participants = tl (dropWhile (\<lambda>c. c \<noteq> TAB) pl), age = a\<rparr>))
         else Inl IndexError) = Inl e"
      by (simp only: unfolded)
    then show "e = IndexError"
      by (simp split: option.splits if_splits)
  next
    assume h: "find ?P ?cl = Some pl \<and> TAB \<in> set pl \<and> find ?A ?cl = Some al"
    then have hp: "find ?P ?cl = Some pl" and ht: "TAB \<in> set pl"
      and ha: "find ?A ?cl = Some al" by blast+
    from field [OF A_found [OF ha]] obtain a where
      a: "find ?B (split_on (CHR ''|'') al) = Some a" by blast
    have "get_participants_and_age recording =
              Inr \<lparr>participants = tl (dropWhile (\<lambda>c. c \<noteq> TAB) pl), age = a\<rparr>"
      by (simp add: unfolded hp ht ha a)
    with a show "\<exists>a. find ?B (split_on (CHR ''|'') al) = Some a \<and>
            get_participants_and_age recording =
              Inr \<lparr>participants = tl (dropWhile (\<lambda>c. c \<noteq> TAB) pl), age = a\<rparr>"
      by blast
  qed
qed


text \<open>The theorem on a header with both lines.\<close>

theorem participants_and_age_failure_witness:
  "find (\<lambda>l. startswith l ''@Participants'')
     (get_cleaned_transcript
        [''@Participants:'' @ [TAB] @ ''CHI Target_Child , MOT Mother'',
         ''@ID:'' @ [TAB] @ ''nld|Corpus|CHI|2;3.15|male|||Target_Child|||''])
   = Some (''@Participants:'' @ [TAB] @ ''CHI Target_Child , MOT Mother'') \<and>
   TAB \<in> set (''@Participants:'' @ [TAB] @ ''CHI Target_Child , MOT Mother'') \<and>
   find (\<lambda>l. startswith l ''@ID'' \<and> py_in '';'' l)
     (get_cleaned_transcript
        [''@Participants:'' @ [TAB] @ ''CHI Target_Child , MOT Mother'',
         ''@ID:'' @ [TAB] @ ''nld|Corpus|CHI|2;3.15|male|||Target_Child|||''])
   = Some (''@ID:'' @ [TAB] @ ''nld|Corpus|CHI|2;3.15|male|||Target_Child|||'') \<and>
   get_participants_and_age
     [''@Participants:'' @ [TAB] @ ''CHI Target_Child , MOT Mother'',
      ''@ID:'' @ [TAB] @ ''nld|Corpus|CHI|2;3.15|male|||Target_Child|||'']
   = Inr \<lparr>participants = ''CHI Target_Child , MOT Mother'', age = ''2;3.15''\<rparr>"
proof -
  let ?p = "''@Participants:'' @ [TAB] @ ''CHI Target_Child , MOT Mother''"
  let ?i = "''@ID:'' @ [TAB] @ ''nld|Corpus|CHI|2;3.15|male|||Target_Child|||''"
  have a: "find (\<lambda>l. startswith l ''@Participants'') (get_cleaned_transcript [?p, ?i]) = Some ?p"
    by code_simp
  have b: "TAB \<in> set ?p" by code_simp
  have c: "find (\<lambda>l. startswith l ''@ID'' \<and> py_in '';'' l) (get_cleaned_transcript [?p, ?i])
             = Some ?i"
    by code_simp
  from participants_and_age_failure [of "[?p, ?i]" IndexError ?p ?i] a b c
  obtain x where x: "find (\<lambda>bit. py_in '';'' bit) (split_on (CHR ''|'') ?i) = Some x"
    "get_participants_and_age [?p, ?i] =
       Inr \<lparr>participants = tl (dropWhile (\<lambda>c. c \<noteq> TAB) ?p), age = x\<rparr>"
    by blast
  have d: "find (\<lambda>bit. py_in '';'' bit) (split_on (CHR ''|'') ?i) = Some ''2;3.15''"
    by code_simp
  have e: "tl (dropWhile (\<lambda>c. c \<noteq> TAB) ?p) = ''CHI Target_Child , MOT Mother''"
    by code_simp
  from x d have "x = ''2;3.15''" by (simp only: option.inject)
  with x(2) e have "get_participants_and_age [?p, ?i]
      = Inr \<lparr>participants = ''CHI Target_Child , MOT Mother'', age = ''2;3.15''\<rparr>"
    by (simp only:)
  with a b c show ?thesis by (intro conjI)
qed

text \<open>
  The claim C6 as stated fails when the \<open>@Participants\<close> line has no tab: both lines are
  present, and the call raises \<open>IndexError\<close> on \<open>split('\t', 1)[1]\<close>.
\<close>

theorem participants_and_age_failure_counterexample:
  "get_cleaned_transcript
     [''@Participants: CHI Target_Child'', ''@ID:'' @ [TAB] @ ''nld|Corpus|CHI|2;3.15|male|||''] =
     [''@Participants: CHI Target_Child'', ''@ID:'' @ [TAB] @ ''nld|Corpus|CHI|2;3.15|male|||''] \<and>
   startswith ''@Participants: CHI Target_Child'' ''@Participants'' \<and>
   startswith (''@ID:'' @ [TAB] @ ''nld|Corpus|CHI|2;3.15|male|||'') ''@ID'' \<and>
   py_in '';'' (''@ID:'' @ [TAB] @ ''nld|Corpus|CHI|2;3.15|male|||'') \<and>
   get_participants_and_age
     [''@Participants: CHI Target_Child'', ''@ID:'' @ [TAB] @ ''nld|Corpus|CHI|2;3.15|male|||'']
     = Inl IndexError"
  by code_simp

lemma isdecimal_not_int_space: "isdecimal c \<Longrightarrow> \<not> int_space c"
  by (auto simp: isdecimal_def int_space_def)

lemma isdecimal_not_sign: "isdecimal c \<Longrightarrow> c \<noteq> CHR ''-'' \<and> c \<noteq> CHR ''+''"
  by (auto simp: isdecimal_def)

lemma isdecimal_not_sep: "isdecimal c \<Longrightarrow> c \<noteq> CHR '';'' \<and> c \<noteq> CHR ''.''"
  by (auto simp: isdecimal_def)

lemma dropWhile_none: "\<forall>x \<in> set s. \<not> P x \<Longrightarrow> dropWhile P s = s"
  by (cases s) simp_all

lemma int_strip_no_space: "\<forall>c \<in> set s. \<not> int_space c \<Longrightarrow> int_strip s = s"
  by (simp add: int_strip_def dropWhile_none)

lemma int_digits_decimal:
  "\<forall>c \<in> set cs. isdecimal c \<Longrightarrow>
   int_digits acc cs = Some (foldl (\<lambda>a c. 10 * a + digit_value c) acc cs)"
  by (induction acc cs rule: int_digits.induct) simp_all

lemma py_int_digits:
  assumes "ds \<noteq> []" "\<forall>c \<in> set ds. isdecimal c" "length ds \<le> max_str_digits"
  shows "py_int ds = Inr (decimal_value ds)"
proof -
  from assms obtain c cs where ds: "ds = c # cs" by (cases ds) auto
  with assms(2) have c: "isdecimal c" and cs: "\<forall>x \<in> set cs. isdecimal x" by simp_all
  have "int_strip ds = c # cs"
    using assms(2) ds by (simp add: int_strip_no_space isdecimal_not_int_space)
  moreover have "filter isdecimal (c # cs) = c # cs"
    using c cs by simp
  then have "\<not> max_str_digits < length (filter isdecimal (c # cs))"
    using assms(3) ds by simp
  then have "int_unsigned (c # cs) = Inr (decimal_value ds)"
    using c int_digits_decimal [OF cs] by (simp add: int_unsigned_def decimal_value_def ds)
  ultimately show ?thesis
    using isdecimal_not_sign [OF c] by (simp add: py_int_def)
qed

lemma split_on_no_sep: "sep \<notin> set a \<Longrightarrow> split_on sep a = [a]"
  by (induction a) auto

lemma split_on_append:
  "sep \<notin> set a \<Longrightarrow> split_on sep (a @ sep # b) = a # split_on sep b"
  by (induction a) auto

lemma age_in_days_digits:
  assumes "ys \<noteq> []" "\<forall>c \<in> set ys. isdecimal c"
    and "ms \<noteq> []" "\<forall>c \<in> set ms. isdecimal c"
    and "ds \<noteq> []" "\<forall>c \<in> set ds. isdecimal c"
    and "length ys \<le> max_str_digits" "length ms \<le> max_str_digits"
        "length ds \<le> max_str_digits"
  shows "age_in_days (ys @ '';'' @ ms @ ''.'' @ ds)
       = Inr (decimal_value ys * 360 + decimal_value ms * 30 + decimal_value ds)"
proof -
  have y: "CHR '';'' \<notin> set ys" using assms(2) isdecimal_not_sep by blast
  have m: "CHR '';'' \<notin> set ms" "CHR ''.'' \<notin> set ms" using assms(4) isdecimal_not_sep by blast+
  have d: "CHR '';'' \<notin> set ds" "CHR ''.'' \<notin> set ds" using assms(6) isdecimal_not_sep by blast+
  have "split_on (CHR '';'') (ys @ CHR '';'' # (ms @ CHR ''.'' # ds))
      = ys # split_on (CHR '';'') (ms @ CHR ''.'' # ds)"
    using y by (rule split_on_append)
  moreover have "split_on (CHR '';'') (ms @ CHR ''.'' # ds) = [ms @ CHR ''.'' # ds]"
    using m d by (intro split_on_no_sep) simp
  ultimately have s1: "split_on (CHR '';'') (ys @ CHR '';'' # ms @ CHR ''.'' # ds)
      = [ys, ms @ CHR ''.'' # ds]"
    by simp
  have "split_on (CHR ''.'') (ms @ CHR ''.'' # ds) = ms # split_on (CHR ''.'') ds"
    using m(2) by (rule split_on_append)
  moreover have "split_on (CHR ''.'') ds = [ds]"
    using d(2) by (rule split_on_no_sep)
  ultimately have s2: "split_on (CHR ''.'') (ms @ CHR ''.'' # ds) = [ms, ds]" by simp
  have "age_in_days (ys @ CHR '';'' # ms @ CHR ''.'' # ds)
       = Inr (decimal_value ys * 360 + decimal_value ms * 30 + decimal_value ds)"
    by (simp add: age_in_days_def s1 s2 py_index_def py_int_digits assms)
  then show ?thesis by simp
qed

text \<open>
  C7. When the age field returned by \<open>get_participants_and_age\<close> is \<open>Y;M.D\<close> with three
  non-empty strings of decimal digits, each of at most \<open>max_str_digits\<close> (4300) digits,
  which is what \<open>int\<close> converts, \<open>get_age_in_days\<close> returns \<open>Y * 360 + M * 30 + D\<close>; on
  the age field \<open>2;3.15\<close> the result is 825.
\<close>

theorem age_in_days_formula:
  "(ys \<noteq> [] \<and> (\<forall>c \<in> set ys. isdecimal c) \<and> length ys \<le> max_str_digits \<and>
    ms \<noteq> [] \<and> (\<forall>c \<in> set ms. isdecimal c) \<and> length ms \<le> max_str_digits \<and>
    ds \<noteq> [] \<and> (\<forall>c \<in> set ds. isdecimal c) \<and> length ds \<le> max_str_digits \<and>
    get_participants_and_age recording = Inr pa \<and> age pa = ys @ '';'' @ ms @ ''.'' @ ds
    \<longrightarrow> get_age_in_days recording
        = Inr (decimal_value ys * 360 + decimal_value ms * 30 + decimal_value ds)) \<and>
   age_in_days ''2;3.15'' = Inr 825"
proof (intro conjI impI)
  assume h: "ys \<noteq> [] \<and> (\<forall>c \<in> set ys. isdecimal c) \<and> length ys \<le> max_str_digits \<and>
    ms \<noteq> [] \<and> (\<forall>c \<in> set ms. isdecimal c) \<and> length ms \<le> max_str_digits \<and>
    ds \<noteq> [] \<and> (\<forall>c \<in> set ds. isdecimal c) \<and> length ds \<le> max_str_digits \<and>
    get_participants_and_age recording = Inr pa \<and> age pa = ys @ '';'' @ ms @ ''.'' @ ds"
  then have "age_in_days (ys @ '';'' @ ms @ ''.'' @ ds)
       = Inr (decimal_value ys * 360 + decimal_value ms * 30 + decimal_value ds)"
    by (intro age_in_days_digits) blast+
  with h show "get_age_in_days recording
        = Inr (decimal_value ys * 360 + decimal_value ms * 30 + decimal_value ds)"
    by (simp add: get_age_in_days_def)
next
  show "age_in_days ''2;3.15'' = Inr 825" by code_simp
qed

text \<open>The theorem on a header whose \<open>@ID\<close> line has the age field \<open>2;3.15\<close>.\<close>

theorem age_in_days_formula_witness:
  "get_participants_and_age
     [''@Participants:'' @ [TAB] @ ''CHI Target_Child'',
      ''@ID:'' @ [TAB] @ ''nld|Corpus|CHI|2;3.15|male|||Target_Child|||'']
   = Inr \<lparr>participants = ''CHI Target_Child'', age = ''2'' @ '';'' @ ''3'' @ ''.'' @ ''15''\<rparr> \<and>
   decimal_value ''2'' * 360 + decimal_value ''3'' * 30 + decimal_value ''15'' = 825 \<and>
   get_age_in_days
     [''@Participants:'' @ [TAB] @ ''CHI Target_Child'',
      ''@ID:'' @ [TAB] @ ''nld|Corpus|CHI|2;3.15|male|||Target_Child|||'']
   = Inr 825"
proof -
  let ?R = "[''@Participants:'' @ [TAB] @ ''CHI Target_Child'',
      ''@ID:'' @ [TAB] @ ''nld|Corpus|CHI|2;3.15|male|||Target_Child|||'']"
  let ?pa = "\<lparr>participants = ''CHI Target_Child'', age = ''2'' @ '';'' @ ''3'' @ ''.'' @ ''15''\<rparr>"
  have a: "get_participants_and_age ?R = Inr ?pa" by code_simp
  have b: "age ?pa = ''2'' @ '';'' @ ''3'' @ ''.'' @ ''15''" by simp
  have c: "''2'' \<noteq> [] \<and> (\<forall>c \<in> set ''2''. isdecimal c) \<and> length ''2'' \<le> max_str_digits \<and>
    ''3'' \<noteq> [] \<and> (\<forall>c \<in> set ''3''. isdecimal c) \<and> length ''3'' \<le> max_str_digits \<and>
    ''15'' \<noteq> [] \<and> (\<forall>c \<in> set ''15''. isdecimal c) \<and> length ''15'' \<le> max_str_digits"
    by code_simp
  have d: "decimal_value ''2'' * 360 + decimal_value ''3'' * 30 + decimal_value ''15'' = 825"
    by code_simp
  from age_in_days_formula [of "''2''" "''3''" "''15''" ?R ?pa] a b c
  have "get_age_in_days ?R
      = Inr (decimal_value ''2'' * 360 + decimal_value ''3'' * 30 + decimal_value ''15'')"
    by blast
  with d have e: "get_age_in_days ?R = Inr 825" by (simp only:)
  from a d e show ?thesis by (intro conjI)
qed

section \<open>Properties of compute_ttr_from_frequencies\<close>

lemma round_half_even_le:
  assumes "x \<le> of_int n"
  shows "round_half_even x \<le> n"
proof -
  have f: "\<lfloor>x\<rfloor> \<le> n" using assms by (simp add: floor_le_iff)
  show ?thesis
  proof (cases "x - of_int \<lfloor>x\<rfloor> < 1 / 2")
    case True
    with f show ?thesis by (simp add: round_half_even_def Let_def)
  next
    case False
    have "\<lfloor>x\<rfloor> \<noteq> n"
    proof
      assume e: "\<lfloor>x\<rfloor> = n"
      have "of_int \<lfloor>x\<rfloor> \<le> x" by simp
      with e assms have "x = of_int \<lfloor>x\<rfloor>" by simp
      with False show False by simp
    qed
    with f have "\<lfloor>x\<rfloor> + 1 \<le> n" by simp
    with f show ?thesis by (simp add: round_half_even_def Let_def)
  qed
qed

lemma round_half_even_nonneg:
  assumes "0 \<le> x"
  shows "0 \<le> round_half_even x"
proof -
  have "0 \<le> \<lfloor>x\<rfloor>" using assms by simp
  then show ?thesis by (simp add: round_half_even_def Let_def)
qed

lemma pow2_pos: "0 < pow2 k"
  by (simp add: pow2_def)

lemma pow2_nonpos: "k \<le> 0 \<Longrightarrow> pow2 k * of_int (2 ^ nat (- k)) = 1"
  by (simp add: pow2_def)

lemma bit_length_mono: "m \<le> n \<Longrightarrow> bit_length m \<le> bit_length n"
proof (induction n arbitrary: m rule: bit_length.induct)
  case (1 n)
  show ?case
  proof (cases "m = 0")
    case True
    then show ?thesis by (simp add: bit_length.simps [of 0])
  next
    case False
    with 1 have n: "n \<noteq> 0" by simp
    have "m div 2 \<le> n div 2" using 1(2) by (rule div_le_mono)
    with 1(1) n have "bit_length (m div 2) \<le> bit_length (n div 2)" by simp
    with False n show ?thesis
      by (simp add: bit_length.simps [of m] bit_length.simps [of n])
  qed
qed

lemma floor_log2_le_0:
  assumes "0 < x" "x \<le> 1"
  shows "floor_log2 x \<le> 0"
proof -
  obtain p q where pq: "quotient_of x = (p, q)" by (cases "quotient_of x")
  then have q: "0 < q" and x: "x = of_int p / of_int q"
    by (simp_all add: quotient_of_denom_pos quotient_of_div)
  from assms x q have "p \<le> q" by (simp add: divide_le_eq)
  moreover from assms x q have "0 < p" by (simp add: zero_less_divide_iff)
  ultimately have "nat p \<le> nat q" by simp
  then have "bit_length (nat p) \<le> bit_length (nat q)" by (rule bit_length_mono)
  then show ?thesis by (simp add: floor_log2_def Let_def pq)
qed

lemma nearest_float_unit:
  assumes "0 \<le> x" "x \<le> 1"
  shows "0 \<le> nearest_float x \<and> nearest_float x \<le> 1"
proof (cases "x = 0")
  case True
  then show ?thesis by (simp add: nearest_float_def)
next
  case False
  with assms have pos: "0 < x" by simp
  define k where "k = max (floor_log2 x) (- 1022) - 52"
  have k: "k \<le> 0" using floor_log2_le_0 [OF pos assms(2)] by (simp add: k_def)
  define n :: int where "n = 2 ^ nat (- k)"
  have one: "pow2 k * of_int n = 1" unfolding n_def using k by (rule pow2_nonpos)
  have up: "0 < pow2 k" by (rule pow2_pos)
  have nf: "nearest_float x = of_int (round_half_even (x / pow2 k)) * pow2 k"
    using pos by (simp add: nearest_float_def Let_def k_def)
  have "x / pow2 k \<le> 1 / pow2 k" using assms(2) up by (simp add: divide_le_cancel)
  also have "1 / pow2 k = of_int n" using one up by (simp add: field_simps)
  finally have "round_half_even (x / pow2 k) \<le> n" by (rule round_half_even_le)
  then have "(of_int (round_half_even (x / pow2 k)) :: rat) \<le> of_int n" by simp
  then have "of_int (round_half_even (x / pow2 k)) * pow2 k \<le> of_int n * pow2 k"
    using up by (simp add: mult_le_cancel_right)
  with one have le: "nearest_float x \<le> 1" by (simp add: nf mult.commute)
  have "0 \<le> x / pow2 k" using assms(1) up by simp
  then have "0 \<le> round_half_even (x / pow2 k)" by (rule round_half_even_nonneg)
  then have "0 \<le> nearest_float x" using up by (simp add: nf)
  with le show ?thesis by simp
qed

lemma py_round2_unit:
  assumes "0 \<le> x" "x \<le> 1"
  shows "0 \<le> py_round2 x \<and> py_round2 x \<le> 1"
proof -
  have "x * 100 \<le> of_int 100" using assms(2) by simp
  then have "round_half_even (x * 100) \<le> 100" by (rule round_half_even_le)
  moreover have "0 \<le> round_half_even (x * 100)"
    using assms(1) by (intro round_half_even_nonneg) simp
  ultimately have "0 \<le> (of_int (round_half_even (x * 100)) :: rat) / 100"
    "(of_int (round_half_even (x * 100)) :: rat) / 100 \<le> 1"
    by simp_all
  then show ?thesis unfolding py_round2_def by (rule nearest_float_unit)
qed

lemma py_truediv_unit:
  assumes "0 \<le> a" "a \<le> b" "0 < b"
  shows "\<exists>r. py_truediv a b = Inr r \<and> 0 \<le> r \<and> r \<le> 1"
proof -
  have "0 \<le> (of_int a :: rat) / of_int b" "(of_int a :: rat) / of_int b \<le> 1"
    using assms by (simp_all add: divide_le_eq)
  then have u: "0 \<le> nearest_float (of_int a / of_int b) \<and> nearest_float (of_int a / of_int b) \<le> 1"
    by (rule nearest_float_unit)
  have "(1 :: rat) < pow2 1024" by (simp add: pow2_def)
  with u have "\<not> pow2 1024 \<le> \<bar>nearest_float (of_int a / of_int b)\<bar>" by simp
  with u assms(3) show ?thesis by (simp add: py_truediv_def Let_def)
qed

lemma types_le_tokens:
  "\<forall>item \<in> set d. 0 < snd item \<Longrightarrow> int (length d) \<le> sum_list (map snd d)"
  by (induction d) auto

lemma round_half_even_ge: "x - 1 / 2 \<le> of_int (round_half_even x)"
proof -
  have "x - of_int \<lfloor>x\<rfloor> < 1" by linarith
  moreover have "0 \<le> x - of_int \<lfloor>x\<rfloor>" by simp
  ultimately show ?thesis by (auto simp: round_half_even_def Let_def)
qed

lemma pow2_small: "k \<le> - 52 \<Longrightarrow> pow2 k \<le> 1 / 2 ^ 52"
proof -
  assume k: "k \<le> - 52"
  then have "(2 :: rat) ^ 52 \<le> 2 ^ nat (- k)" by (intro power_increasing) simp_all
  then have "1 / (2 :: rat) ^ nat (- k) \<le> 1 / 2 ^ 52" by (intro divide_left_mono) simp_all
  with k show ?thesis by (simp add: pow2_def)
qed

lemma nearest_float_lower:
  assumes "0 < x" "x \<le> 1"
  shows "x - 1 / 2 ^ 53 \<le> nearest_float x"
proof -
  define k where "k = max (floor_log2 x) (- 1022) - 52"
  have k: "k \<le> - 52" using floor_log2_le_0 [OF assms] by (simp add: k_def)
  have up: "0 < pow2 k" by (rule pow2_pos)
  have small: "pow2 k \<le> 1 / 2 ^ 52" using k by (rule pow2_small)
  have nf: "nearest_float x = of_int (round_half_even (x / pow2 k)) * pow2 k"
    using assms(1) by (simp add: nearest_float_def Let_def k_def)
  have "(x / pow2 k - 1 / 2) * pow2 k \<le> of_int (round_half_even (x / pow2 k)) * pow2 k"
    using round_half_even_ge [of "x / pow2 k"] up by (simp only: mult_le_cancel_right_pos)
  moreover have "(x / pow2 k - 1 / 2) * pow2 k = x - pow2 k / 2"
    using up by (simp add: field_simps)
  ultimately have "x - pow2 k / 2 \<le> nearest_float x" by (simp add: nf)
  moreover have "pow2 k / 2 \<le> 1 / 2 ^ 53" using small by simp
  ultimately show ?thesis by linarith
qed

lemma py_round2_positive:
  assumes "1 / 100 - 1 / 2 ^ 53 \<le> x" "x \<le> 1"
  shows "0 < py_round2 x"
proof -
  have "(1 :: rat) / 2 ^ 53 < 1 / 400" by simp
  with assms(1) have x: "3 / 400 < x" by linarith
  have "x * 100 - 1 / 2 \<le> of_int (round_half_even (x * 100))" by (rule round_half_even_ge)
  with x have "(0 :: rat) < of_int (round_half_even (x * 100))" by linarith
  then have "1 \<le> round_half_even (x * 100)" by simp
  then have "(1 :: rat) \<le> of_int (round_half_even (x * 100))" by linarith
  then have lo: "(1 :: rat) / 100 \<le> of_int (round_half_even (x * 100)) / 100" by simp
  have "x * 100 \<le> of_int 100" using assms(2) by simp
  then have "round_half_even (x * 100) \<le> 100" by (rule round_half_even_le)
  then have hi: "(of_int (round_half_even (x * 100)) :: rat) / 100 \<le> 1" by simp
  from lo have "(0 :: rat) < of_int (round_half_even (x * 100)) / 100" by linarith
  from nearest_float_lower [OF this hi] lo
  have "1 / 100 - 1 / 2 ^ 53 \<le> py_round2 x" by (simp add: py_round2_def)
  moreover have "(0 :: rat) < 1 / 100 - 1 / 2 ^ 53" by simp
  ultimately show ?thesis by linarith
qed

lemma py_truediv_lower:
  assumes "0 < a" "a \<le> b" "b \<le> 100 * a"
  shows "\<exists>r. py_truediv a b = Inr r \<and> 1 / 100 - 1 / 2 ^ 53 \<le> r \<and> r \<le> 1"
proof -
  from assms have b: "0 < b" by linarith
  from py_truediv_unit [OF _ assms(2) b] assms(1) obtain r where
    r: "py_truediv a b = Inr r" "r \<le> 1" by auto
  with b have nf: "r = nearest_float (of_int a / of_int b)"
    by (simp add: py_truediv_def Let_def split: if_splits)
  have q1: "(of_int a :: rat) / of_int b \<le> 1" using assms b by (simp add: divide_le_eq)
  have "(of_int b :: rat) \<le> 100 * of_int a" using assms(3) by (metis of_int_le_iff of_int_mult of_int_numeral)
  then have q2: "(1 :: rat) / 100 \<le> of_int a / of_int b" using b by (simp add: field_simps)
  then have "(0 :: rat) < of_int a / of_int b" by linarith
  from nearest_float_lower [OF this q1] q2 nf have "1 / 100 - 1 / 2 ^ 53 \<le> r" by linarith
  with r show ?thesis by blast
qed

text \<open>
  C4, as the code has it. On the empty dictionary the result is 0. On a non-empty
  dictionary with positive counts the call returns a value between 0 and 1, both
  included: the ratio is rounded to two decimals, so it can be 0. The value is positive
  whenever there are at most 100 tokens per type.
\<close>

theorem ttr_bounds:
  "compute_ttr_from_frequencies [] = Inr 0 \<and>
   (frequency_dictionary \<noteq> [] \<and> (\<forall>item \<in> set frequency_dictionary. 0 < snd item)
    \<longrightarrow> (\<exists>r. compute_ttr_from_frequencies frequency_dictionary = Inr r \<and> 0 \<le> r \<and> r \<le> 1 \<and>
           (sum_list (map snd frequency_dictionary) \<le> 100 * int (length frequency_dictionary)
              \<longrightarrow> 0 < r)))"
proof (intro conjI impI)
  show "compute_ttr_from_frequencies [] = Inr 0"
    by (simp add: compute_ttr_from_frequencies_def)
next
  let ?d = frequency_dictionary
  assume h: "?d \<noteq> [] \<and> (\<forall>item \<in> set ?d. 0 < snd item)"
  then have le: "int (length ?d) \<le> sum_list (map snd ?d)" by (simp add: types_le_tokens)
  from h have types: "0 < int (length ?d)" by simp
  with le have pos: "0 < sum_list (map snd ?d)" by linarith
  from py_truediv_unit [OF _ le pos] obtain q where
    q: "py_truediv (int (length ?d)) (sum_list (map snd ?d)) = Inr q" "0 \<le> q" "q \<le> 1"
    by auto
  from q(1) pos have r: "compute_ttr_from_frequencies ?d = Inr (py_round2 q)"
    by (simp add: compute_ttr_from_frequencies_def Let_def)
  have "0 < py_round2 q" if "sum_list (map snd ?d) \<le> 100 * int (length ?d)"
  proof -
    from py_truediv_lower [OF types le that] q(1)
    have "1 / 100 - 1 / 2 ^ 53 \<le> q" by simp
    then show ?thesis using q(3) by (rule py_round2_positive)
  qed
  with py_round2_unit [OF q(2) q(3)] r
  show "\<exists>r. compute_ttr_from_frequencies ?d = Inr r \<and> 0 \<le> r \<and> r \<le> 1 \<and>
           (sum_list (map snd ?d) \<le> 100 * int (length ?d) \<longrightarrow> 0 < r)"
    by blast
qed

text \<open>The theorem on two types and three tokens: the result is the float \<open>0.67\<close>.\<close>

theorem ttr_bounds_witness:
  "[(''a'', 2 :: int), (''b'', 1)] \<noteq> [] \<and>
   list_all (\<lambda>item. 0 < snd item) [(''a'', 2 :: int), (''b'', 1)] \<and>
   sum_list (map snd [(''a'', 2 :: int), (''b'', 1)]) \<le> 100 * int (length [(''a'', 2 :: int), (''b'', 1)]) \<and>
   compute_ttr_from_frequencies [(''a'', 2), (''b'', 1)]
     = Inr (6034823500676465 / 9007199254740992) \<and>
   (0 :: rat) < 6034823500676465 / 9007199254740992 \<and>
   (6034823500676465 / 9007199254740992 :: rat) \<le> 1"
proof -
  let ?d = "[(''a'', 2 :: int), (''b'', 1)]"
  have a: "?d \<noteq> []" by simp
  have b: "list_all (\<lambda>item. 0 < snd item) ?d" by simp
  have c: "sum_list (map snd ?d) \<le> 100 * int (length ?d)" by simp
  have e: "compute_ttr_from_frequencies ?d = Inr (6034823500676465 / 9007199254740992)"
    by code_simp
  from b have b': "\<forall>item \<in> set ?d. 0 < snd item" by (simp only: list_all_iff)
  from ttr_bounds [of ?d] a b' obtain r where
    r: "compute_ttr_from_frequencies ?d = Inr r" "0 \<le> r" "r \<le> 1"
       "sum_list (map snd ?d) \<le> 100 * int (length ?d) \<longrightarrow> 0 < r"
    by blast
  from r(1) e have "r = 6034823500676465 / 9007199254740992" by (simp only: sum.inject)
  with r c have "(0 :: rat) < 6034823500676465 / 9007199254740992"
    "(6034823500676465 / 9007199254740992 :: rat) \<le> 1" by blast+
  with a b c e show ?thesis by (intro conjI)
qed

text \<open>
  The claim C4 as stated fails on one type with 1000 tokens: \<open>1 / 1000\<close> is the float
  nearest to 0.001, and \<open>round(0.001, 2)\<close> is \<open>0.0\<close>, which is not greater than 0.
\<close>

theorem ttr_bounds_counterexample:
  "[(''a'', 1000 :: int)] \<noteq> [] \<and> list_all (\<lambda>item. 0 < snd item) [(''a'', 1000 :: int)] \<and>
   compute_ttr_from_frequencies [(''a'', 1000)] = Inr 0"
  by code_simp

end
